theory Spec2Isabelle
  imports Complex_Main
begin

section \<open>Configuration and C arithmetic\<close>

text \<open>
  The header file that fixes the build-time constants is not part of the sources at hand,
  so the three constants the file header code reads are parameters of the model:
  \<open>SectorSize\<close> (bytes per sector), \<open>NumFirst\<close> (slots in a file header) and
  \<open>NumSecond\<close> (entries in a second-level index node).  All of them are C \<open>int\<close>s.
  Integers are modelled as unbounded \<open>int\<close>: no claim below depends on 32-bit overflow.
\<close>

record config =
  SectorSize :: int
  NumFirst :: int
  NumSecond :: int

definition validConfig :: "config \<Rightarrow> bool" where
  "validConfig cfg \<longleftrightarrow> 0 < SectorSize cfg \<and> 0 < NumFirst cfg \<and> 0 < NumSecond cfg"

text \<open>The configuration the specification uses for its concrete scenarios.\<close>

definition specConfig :: config where
  "specConfig = \<lparr>SectorSize = 128, NumFirst = 30, NumSecond = 32\<rparr>"

text \<open>A small configuration: 2-byte sectors, 2 header slots, 2 entries per index node.\<close>

definition tinyConfig :: config where
  "tinyConfig = \<lparr>SectorSize = 2, NumFirst = 2, NumSecond = 2\<rparr>"

text \<open>C integer division truncates towards zero; the remainder has the sign of the dividend.\<close>

definition cdiv :: "int \<Rightarrow> int \<Rightarrow> int" where
  "cdiv a b = sgn a * sgn b * (\<bar>a\<bar> div \<bar>b\<bar>)"

definition cmod :: "int \<Rightarrow> int \<Rightarrow> int" where
  "cmod a b = a - cdiv a b * b"

text \<open>
  Modelled from the spec: the macro \<open>divRoundUp\<close> is defined outside the sources at hand.
  The specification describes every use of it as a ceiling (\<open>ceil(logical_size / SectorBytes)\<close>,
  \<open>ceil(sector_count / NumSecond)\<close>); this is the integer ceiling of \<open>n / s\<close> for \<open>s > 0\<close>.
\<close>

definition divRoundUp :: "int \<Rightarrow> int \<Rightarrow> int" where
  "divRoundUp n s = - ((- n) div s)"

section \<open>Outcomes\<close>

text \<open>
  \<open>AssertionFailed\<close>: an \<open>ASSERT\<close> of the source failed and the machine halted.
  \<open>OutOfBounds\<close>: the source indexed \<open>dataSectors\<close> outside the array (undefined behaviour in C++).
  \<open>Indeterminate\<close>: the source read an entry of an index node that was never written
  (\<open>new SecondNode\<close> does not initialise its entries).
\<close>

datatype error = AssertionFailed | OutOfBounds | Indeterminate

section \<open>The free-space bitmap\<close>

text \<open>
  Modelled from the spec: class \<open>BitMap\<close> is an external collaborator whose code is not among
  the sources at hand.  The specification gives its contract: one bit per disk sector,
  \<open>find \<rightarrow> sector | none\<close>, \<open>clear(sector)\<close>, \<open>test(sector) \<rightarrow> bool\<close>, \<open>count_clear() \<rightarrow> int\<close>;
  \<open>find\<close> never hands out a sector that is already marked.  A bitmap is the list of its bits
  (\<open>True\<close> = allocated).  \<open>Find\<close> returns a C \<open>int\<close>; the value for "none" is \<open>NoSector\<close>.
  The specification fixes no search order; the model takes the lowest clear bit.  A sector
  number outside the map tests as not marked, so an \<open>ASSERT\<close> on it fails.
\<close>

type_synonym BitMap = "bool list"

definition NoSector :: int where
  "NoSector = - 1"

definition NumClear :: "BitMap \<Rightarrow> int" where
  "NumClear bm = int (length (filter Not bm))"

definition Test :: "BitMap \<Rightarrow> int \<Rightarrow> bool" where
  "Test bm s \<longleftrightarrow> 0 \<le> s \<and> nat s < length bm \<and> bm ! nat s"

definition Mark :: "BitMap \<Rightarrow> int \<Rightarrow> BitMap" where
  "Mark bm s = (if 0 \<le> s then bm[nat s := True] else bm)"

definition Clear :: "BitMap \<Rightarrow> int \<Rightarrow> BitMap" where
  "Clear bm s = (if 0 \<le> s then bm[nat s := False] else bm)"

fun firstClear :: "BitMap \<Rightarrow> nat option" where
  "firstClear [] = None"
| "firstClear (b # bs) = (if b then map_option Suc (firstClear bs) else Some 0)"

definition Find :: "BitMap \<Rightarrow> int \<times> BitMap" where
  "Find bm = (case firstClear bm of
                None \<Rightarrow> (NoSector, bm)
              | Some i \<Rightarrow> (int i, Mark bm (int i)))"

section \<open>File headers, index nodes and the disk\<close>

text \<open>
  \<open>dataSectors\<close> is a C array of \<open>NumFirst\<close> ints; it is modelled as a function on indices,
  and every access checks the index against the array bound (see \<open>getSlot\<close>, \<open>setSlot\<close>).
  An index node is an array of \<open>NumSecond\<close> ints, of which an entry is \<open>None\<close> until it is
  written.  The disk maps a sector number to the index node stored there
  (\<open>synchDisk->ReadSector\<close>, \<open>synchDisk->WriteSector\<close>).  The file header's own copy on disk,
  written by \<open>WriteBack(headSector)\<close>, is the header the operations return.
\<close>

record FileHeader =
  numBytes :: int
  numSectors :: int
  useIndex :: bool
  dataSectors :: "int \<Rightarrow> int"

type_synonym SecondNode = "int \<Rightarrow> int option"

type_synonym disk = "int \<Rightarrow> SecondNode"

definition newNode :: SecondNode where
  "newNode = (\<lambda>j. None)"

definition getSlot :: "config \<Rightarrow> (int \<Rightarrow> int) \<Rightarrow> int \<Rightarrow> error + int" where
  "getSlot cfg arr i = (if 0 \<le> i \<and> i < NumFirst cfg then Inr (arr i) else Inl OutOfBounds)"

definition setSlot :: "config \<Rightarrow> (int \<Rightarrow> int) \<Rightarrow> int \<Rightarrow> int \<Rightarrow> error + (int \<Rightarrow> int)" where
  "setSlot cfg arr i v = (if 0 \<le> i \<and> i < NumFirst cfg then Inr (arr(i := v)) else Inl OutOfBounds)"

definition getEntry :: "config \<Rightarrow> SecondNode \<Rightarrow> int \<Rightarrow> error + int" where
  "getEntry cfg node j =
     (if 0 \<le> j \<and> j < NumSecond cfg
      then (case node j of None \<Rightarrow> Inl Indeterminate | Some s \<Rightarrow> Inr s)
      else Inl OutOfBounds)"

definition setEntry :: "config \<Rightarrow> SecondNode \<Rightarrow> int \<Rightarrow> int \<Rightarrow> error + SecondNode" where
  "setEntry cfg node j v =
     (if 0 \<le> j \<and> j < NumSecond cfg then Inr (node(j := Some v)) else Inl OutOfBounds)"

section \<open>Allocate\<close>

text \<open>\<open>for (i = ...; i < n; i++) dataSectors[i] = freeMap->Find();\<close>\<close>

function fillSlots :: "config \<Rightarrow> int \<Rightarrow> int \<Rightarrow> (int \<Rightarrow> int) \<times> BitMap
    \<Rightarrow> error + ((int \<Rightarrow> int) \<times> BitMap)" where
  "fillSlots cfg i n (arr, bm) =
     (if i < n then
        (case Find bm of (s, bm') \<Rightarrow>
          (case setSlot cfg arr i s of
             Inl e \<Rightarrow> Inl e
           | Inr arr' \<Rightarrow> fillSlots cfg (i + 1) n (arr', bm')))
      else Inr (arr, bm))"
  by pat_completeness auto
termination
  by (relation "measure (\<lambda>(cfg, i, n, st). nat (n - i))") auto

text \<open>\<open>for (j = ...; j < n; j++) node->dataSectors[j] = freeMap->Find();\<close>\<close>

function fillEntries :: "config \<Rightarrow> int \<Rightarrow> int \<Rightarrow> SecondNode \<times> BitMap
    \<Rightarrow> error + (SecondNode \<times> BitMap)" where
  "fillEntries cfg j n (node, bm) =
     (if j < n then
        (case Find bm of (s, bm') \<Rightarrow>
          (case setEntry cfg node j s of
             Inl e \<Rightarrow> Inl e
           | Inr node' \<Rightarrow> fillEntries cfg (j + 1) n (node', bm')))
      else Inr (node, bm))"
  by pat_completeness auto
termination
  by (relation "measure (\<lambda>(cfg, j, n, st). nat (n - j))") auto

text \<open>
  The number of entries of index node \<open>i\<close> that are in use: all \<open>NumSecond\<close> of them unless the
  node is the last one, which holds the tail (the two branches of the source's \<open>if (i < numNode - 1)\<close>).
\<close>

definition entriesOf :: "config \<Rightarrow> int \<Rightarrow> int \<Rightarrow> int \<Rightarrow> int" where
  "entriesOf cfg nSectors numNode i =
     (if i < numNode - 1 then NumSecond cfg else nSectors - NumSecond cfg * (numNode - 1))"

text \<open>
  The loop over index nodes of \<open>AllocateWithIndex\<close>, from position \<open>i\<close>: draw a sector for the
  node, store it in \<open>dataSectors[i]\<close>, fill a fresh node with drawn data sectors, write the node.
  The loop that creates the new index nodes in \<open>addLength\<close> has the same body.
\<close>

function allocNodes :: "config \<Rightarrow> int \<Rightarrow> int \<Rightarrow> int \<Rightarrow> (int \<Rightarrow> int) \<times> BitMap \<times> disk
    \<Rightarrow> error + ((int \<Rightarrow> int) \<times> BitMap \<times> disk)" where
  "allocNodes cfg nSectors numNode i (arr, bm, dsk) =
     (if i < numNode then
        (case Find bm of (sector, bm1) \<Rightarrow>
          (case setSlot cfg arr i sector of
             Inl e \<Rightarrow> Inl e
           | Inr arr1 \<Rightarrow>
              (case fillEntries cfg 0 (entriesOf cfg nSectors numNode i) (newNode, bm1) of
                 Inl e \<Rightarrow> Inl e
               | Inr (node, bm2) \<Rightarrow>
                   allocNodes cfg nSectors numNode (i + 1) (arr1, bm2, dsk(sector := node)))))
      else Inr (arr, bm, dsk))"
  by pat_completeness auto
termination
  by (relation "measure (\<lambda>(cfg, nSectors, numNode, i, st). nat (numNode - i))") auto

definition AllocateWithIndex :: "config \<Rightarrow> FileHeader \<Rightarrow> BitMap \<Rightarrow> disk \<Rightarrow> int
    \<Rightarrow> error + (bool \<times> FileHeader \<times> BitMap \<times> disk)" where
  "AllocateWithIndex cfg h bm dsk fileSize =
     (let h1 = h\<lparr>useIndex := True, numBytes := fileSize,
                 numSectors := divRoundUp fileSize (SectorSize cfg)\<rparr>;
          numNode = divRoundUp (numSectors h1) (NumSecond cfg)
      in if NumClear bm < numSectors h1 + numNode then Inr (False, h1, bm, dsk)
         else (case allocNodes cfg (numSectors h1) numNode 0 (dataSectors h1, bm, dsk) of
                 Inl e \<Rightarrow> Inl e
               | Inr (arr, bm', dsk') \<Rightarrow> Inr (True, h1\<lparr>dataSectors := arr\<rparr>, bm', dsk')))"

definition Allocate :: "config \<Rightarrow> FileHeader \<Rightarrow> BitMap \<Rightarrow> disk \<Rightarrow> int
    \<Rightarrow> error + (bool \<times> FileHeader \<times> BitMap \<times> disk)" where
  "Allocate cfg h bm dsk fileSize =
     (let h1 = h\<lparr>numBytes := fileSize, numSectors := divRoundUp fileSize (SectorSize cfg)\<rparr>
      in if numSectors h1 > NumFirst cfg then AllocateWithIndex cfg h1 bm dsk fileSize
         else (let h2 = h1\<lparr>useIndex := False\<rparr>
               in if NumClear bm < numSectors h2 then Inr (False, h2, bm, dsk)
                  else (case fillSlots cfg 0 (numSectors h2) (dataSectors h2, bm) of
                          Inl e \<Rightarrow> Inl e
                        | Inr (arr, bm') \<Rightarrow> Inr (True, h2\<lparr>dataSectors := arr\<rparr>, bm', dsk))))"

section \<open>Deallocate\<close>

text \<open>\<open>ASSERT(freeMap->Test(s)); freeMap->Clear(s);\<close>\<close>

definition freeSector :: "BitMap \<Rightarrow> int \<Rightarrow> error + BitMap" where
  "freeSector bm s = (if Test bm s then Inr (Clear bm s) else Inl AssertionFailed)"

function freeSlots :: "config \<Rightarrow> int \<Rightarrow> int \<Rightarrow> (int \<Rightarrow> int) \<Rightarrow> BitMap \<Rightarrow> error + BitMap" where
  "freeSlots cfg i n arr bm =
     (if i < n then
        (case getSlot cfg arr i of
           Inl e \<Rightarrow> Inl e
         | Inr s \<Rightarrow>
            (case freeSector bm s of
               Inl e \<Rightarrow> Inl e
             | Inr bm' \<Rightarrow> freeSlots cfg (i + 1) n arr bm'))
      else Inr bm)"
  by pat_completeness auto
termination
  by (relation "measure (\<lambda>(cfg, i, n, arr, bm). nat (n - i))") auto

function freeEntries :: "config \<Rightarrow> int \<Rightarrow> int \<Rightarrow> SecondNode \<Rightarrow> BitMap \<Rightarrow> error + BitMap" where
  "freeEntries cfg j n node bm =
     (if j < n then
        (case getEntry cfg node j of
           Inl e \<Rightarrow> Inl e
         | Inr s \<Rightarrow>
            (case freeSector bm s of
               Inl e \<Rightarrow> Inl e
             | Inr bm' \<Rightarrow> freeEntries cfg (j + 1) n node bm'))
      else Inr bm)"
  by pat_completeness auto
termination
  by (relation "measure (\<lambda>(cfg, j, n, node, bm). nat (n - j))") auto

function freeNodes :: "config \<Rightarrow> int \<Rightarrow> int \<Rightarrow> int \<Rightarrow> (int \<Rightarrow> int) \<Rightarrow> disk \<Rightarrow> BitMap
    \<Rightarrow> error + BitMap" where
  "freeNodes cfg nSectors numNode i arr dsk bm =
     (if i < numNode then
        (case getSlot cfg arr i of
           Inl e \<Rightarrow> Inl e
         | Inr sector \<Rightarrow>
            (case freeEntries cfg 0 (entriesOf cfg nSectors numNode i) (dsk sector) bm of
               Inl e \<Rightarrow> Inl e
             | Inr bm1 \<Rightarrow>
                (case freeSector bm1 sector of
                   Inl e \<Rightarrow> Inl e
                 | Inr bm2 \<Rightarrow> freeNodes cfg nSectors numNode (i + 1) arr dsk bm2)))
      else Inr bm)"
  by pat_completeness auto
termination
  by (relation "measure (\<lambda>(cfg, nSectors, numNode, i, arr, dsk, bm). nat (numNode - i))") auto

definition DeallocateWithIndex :: "config \<Rightarrow> FileHeader \<Rightarrow> BitMap \<Rightarrow> disk \<Rightarrow> error + BitMap" where
  "DeallocateWithIndex cfg h bm dsk =
     (let numNode = divRoundUp (numSectors h) (NumSecond cfg)
      in freeNodes cfg (numSectors h) numNode 0 (dataSectors h) dsk bm)"

definition Deallocate :: "config \<Rightarrow> FileHeader \<Rightarrow> BitMap \<Rightarrow> disk \<Rightarrow> error + BitMap" where
  "Deallocate cfg h bm dsk =
     (if useIndex h then DeallocateWithIndex cfg h bm dsk
      else freeSlots cfg 0 (numSectors h) (dataSectors h) bm)"

section \<open>ByteToSector\<close>

definition ByteToSectorWithIndex :: "config \<Rightarrow> FileHeader \<Rightarrow> disk \<Rightarrow> int \<Rightarrow> error + int" where
  "ByteToSectorWithIndex cfg h dsk offset =
     (let whichSector = cdiv offset (SectorSize cfg);
          whichNode = cdiv whichSector (NumSecond cfg)
      in (case getSlot cfg (dataSectors h) whichNode of
            Inl e \<Rightarrow> Inl e
          | Inr sector \<Rightarrow> getEntry cfg (dsk sector) (whichSector - whichNode * NumSecond cfg)))"

definition ByteToSector :: "config \<Rightarrow> FileHeader \<Rightarrow> disk \<Rightarrow> int \<Rightarrow> error + int" where
  "ByteToSector cfg h dsk offset =
     (if useIndex h then ByteToSectorWithIndex cfg h dsk offset
      else getSlot cfg (dataSectors h) (cdiv offset (SectorSize cfg)))"

section \<open>addLength\<close>

text \<open>\<open>for (int i = 0; i < oldNumSectors; i++) snode->dataSectors[i] = dataSectors[i];\<close>\<close>

function copySlots :: "config \<Rightarrow> int \<Rightarrow> int \<Rightarrow> (int \<Rightarrow> int) \<Rightarrow> SecondNode \<Rightarrow> error + SecondNode" where
  "copySlots cfg i n arr node =
     (if i < n then
        (case getSlot cfg arr i of
           Inl e \<Rightarrow> Inl e
         | Inr v \<Rightarrow>
            (case setEntry cfg node i v of
               Inl e \<Rightarrow> Inl e
             | Inr node' \<Rightarrow> copySlots cfg (i + 1) n arr node'))
      else Inr node)"
  by pat_completeness auto
termination
  by (relation "measure (\<lambda>(cfg, i, n, arr, node). nat (n - i))") auto

text \<open>The block under \<open>if (numSectors > NumFirst && !useIndex)\<close>: build the first index node.\<close>

definition migrate :: "config \<Rightarrow> FileHeader \<Rightarrow> int \<Rightarrow> BitMap \<Rightarrow> disk
    \<Rightarrow> error + (FileHeader \<times> BitMap \<times> disk)" where
  "migrate cfg h oldNumSectors bm dsk =
     (case Find bm of (sec, bm1) \<Rightarrow>
       (case copySlots cfg 0 oldNumSectors (dataSectors h) newNode of
          Inl e \<Rightarrow> Inl e
        | Inr snode \<Rightarrow>
           (case setSlot cfg (dataSectors h) 0 sec of
              Inl e \<Rightarrow> Inl e
            | Inr arr \<Rightarrow> Inr (h\<lparr>dataSectors := arr, useIndex := True\<rparr>, bm1, dsk(sec := snode)))))"

text \<open>
  The block under \<open>if (oldNumSectors % NumSecond != 0)\<close>: read the last index node, fill its
  free entries, write it back.
\<close>

definition fillTail :: "config \<Rightarrow> int \<Rightarrow> int \<Rightarrow> int \<Rightarrow> (int \<Rightarrow> int) \<times> BitMap \<times> disk
    \<Rightarrow> error + ((int \<Rightarrow> int) \<times> BitMap \<times> disk)" where
  "fillTail cfg oldNumSectors nSectors oldNumNode st =
     (case st of (arr, bm, dsk) \<Rightarrow>
       (case getSlot cfg arr (oldNumNode - 1) of
          Inl e \<Rightarrow> Inl e
        | Inr sector \<Rightarrow>
           (case fillEntries cfg (oldNumSectors - (oldNumNode - 1) * NumSecond cfg)
                   (min (NumSecond cfg) (nSectors - (oldNumNode - 1) * NumSecond cfg))
                   (dsk sector, bm) of
              Inl e \<Rightarrow> Inl e
            | Inr (snode, bm') \<Rightarrow> Inr (arr, bm', dsk(sector := snode)))))"

text \<open>Lines 321 to 354 of the source: growth of an indexed file.\<close>

definition growIndexed :: "config \<Rightarrow> FileHeader \<Rightarrow> int \<Rightarrow> BitMap \<Rightarrow> disk
    \<Rightarrow> error + (bool \<times> FileHeader \<times> BitMap \<times> disk)" where
  "growIndexed cfg h oldNumSectors bm dsk =
     (let oldNumNode = divRoundUp oldNumSectors (NumSecond cfg);
          numNode = divRoundUp (numSectors h) (NumSecond cfg)
      in (case (if cmod oldNumSectors (NumSecond cfg) \<noteq> 0
                then fillTail cfg oldNumSectors (numSectors h) oldNumNode (dataSectors h, bm, dsk)
                else Inr (dataSectors h, bm, dsk)) of
            Inl e \<Rightarrow> Inl e
          | Inr st \<Rightarrow>
             (case allocNodes cfg (numSectors h) numNode oldNumNode st of
                Inl e \<Rightarrow> Inl e
              | Inr (arr, bm', dsk') \<Rightarrow> Inr (True, h\<lparr>dataSectors := arr\<rparr>, bm', dsk'))))"

text \<open>
  \<open>addLength\<close>.  The bitmap argument is the content of \<open>freeMapFile\<close>; the bitmap returned is
  its content afterwards (the path that returns early never opens it).
\<close>

definition addLength :: "config \<Rightarrow> FileHeader \<Rightarrow> BitMap \<Rightarrow> disk \<Rightarrow> int
    \<Rightarrow> error + (bool \<times> FileHeader \<times> BitMap \<times> disk)" where
  "addLength cfg h bm dsk addBytes =
     (let oldNumSectors = numSectors h;
          h1 = h\<lparr>numBytes := numBytes h + addBytes,
                 numSectors := divRoundUp (numBytes h + addBytes) (SectorSize cfg)\<rparr>
      in if numSectors h1 - oldNumSectors = 0 then Inr (True, h1, bm, dsk)
         else if numSectors h1 \<le> NumFirst cfg then
           (case fillSlots cfg oldNumSectors (numSectors h1) (dataSectors h1, bm) of
              Inl e \<Rightarrow> Inl e
            | Inr (arr, bm') \<Rightarrow> Inr (True, h1\<lparr>dataSectors := arr\<rparr>, bm', dsk))
         else
           (case (if numSectors h1 > NumFirst cfg \<and> \<not> useIndex h1
                  then migrate cfg h1 oldNumSectors bm dsk
                  else Inr (h1, bm, dsk)) of
              Inl e \<Rightarrow> Inl e
            | Inr (h2, bm2, dsk2) \<Rightarrow> growIndexed cfg h2 oldNumSectors bm2 dsk2))"

section \<open>Notions used in the statements and proofs\<close>

text \<open>
  \<open>drawn bm bm' xs\<close>: the sectors \<open>xs\<close> are exactly the bits that are set in \<open>bm'\<close> and clear in
  \<open>bm\<close>, each listed once, and no bit set in \<open>bm\<close> has been cleared.
\<close>

definition drawn :: "BitMap \<Rightarrow> BitMap \<Rightarrow> int list \<Rightarrow> bool" where
  "drawn bm bm' xs \<longleftrightarrow>
     distinct xs \<and> set xs = {t. Test bm' t \<and> \<not> Test bm t} \<and> (\<forall>t. Test bm t \<longrightarrow> Test bm' t) \<and>
     NumClear bm' = NumClear bm - int (length xs)"

text \<open>Freeing a list of sectors one after the other, as the loops of \<open>Deallocate\<close> do.\<close>

fun freeList :: "BitMap \<Rightarrow> int list \<Rightarrow> error + BitMap" where
  "freeList bm [] = Inr bm"
| "freeList bm (s # ss) = (case freeSector bm s of Inl e \<Rightarrow> Inl e | Inr bm' \<Rightarrow> freeList bm' ss)"

text \<open>
  The sectors a file owns through index node \<open>k\<close>: the data sectors in the node's entries that are
  in use, then the sector of the node itself (the order in which \<open>DeallocateWithIndex\<close> frees them).
\<close>

definition ownedNode :: "config \<Rightarrow> int \<Rightarrow> int \<Rightarrow> (int \<Rightarrow> int) \<Rightarrow> disk \<Rightarrow> int \<Rightarrow> int list" where
  "ownedNode cfg nSectors numNode arr dsk k =
     map (\<lambda>j. the (dsk (arr k) j)) [0..entriesOf cfg nSectors numNode k - 1] @ [arr k]"

definition ownedNodes :: "config \<Rightarrow> int \<Rightarrow> int \<Rightarrow> (int \<Rightarrow> int) \<Rightarrow> disk \<Rightarrow> int \<Rightarrow> int list" where
  "ownedNodes cfg nSectors numNode arr dsk i =
     concat (map (ownedNode cfg nSectors numNode arr dsk) [i..numNode - 1])"

text \<open>The sectors a file owns, in the order in which \<open>Deallocate\<close> frees them.\<close>

definition owned :: "config \<Rightarrow> FileHeader \<Rightarrow> disk \<Rightarrow> int list" where
  "owned cfg h dsk =
     (if useIndex h
      then ownedNodes cfg (numSectors h) (divRoundUp (numSectors h) (NumSecond cfg))
             (dataSectors h) dsk 0
      else map (dataSectors h) [0..numSectors h - 1])"

text \<open>
  The number of clear bits the specification asks for: the data sectors in direct mode, the data
  sectors plus the index nodes in indexed mode.
\<close>

definition sectorsNeeded :: "config \<Rightarrow> int \<Rightarrow> int" where
  "sectorsNeeded cfg fileSize =
     (let n = divRoundUp fileSize (SectorSize cfg)
      in if n > NumFirst cfg then n + divRoundUp n (NumSecond cfg) else n)"

text \<open>
  The number of sectors a growth by \<open>addBytes\<close> draws: the new data sectors, in indexed mode the
  new index nodes as well, and one more sector for the first index node when a direct file
  becomes indexed.
\<close>

definition growthNeeded :: "config \<Rightarrow> FileHeader \<Rightarrow> int \<Rightarrow> int" where
  "growthNeeded cfg h addBytes =
     (let n = divRoundUp (numBytes h + addBytes) (SectorSize cfg)
      in if n \<le> NumFirst cfg then n - numSectors h
         else n - numSectors h
              + (divRoundUp n (NumSecond cfg) - divRoundUp (numSectors h) (NumSecond cfg))
              + (if useIndex h then 0 else 1))"

text \<open>A header of an empty file, a disk on which no index node has been written.\<close>

definition emptyHeader :: FileHeader where
  "emptyHeader = \<lparr>numBytes = 0, numSectors = 0, useIndex = False, dataSectors = (\<lambda>i. 0)\<rparr>"

definition blankDisk :: disk where
  "blankDisk = (\<lambda>s. newNode)"

section \<open>Concrete files\<close>

text \<open>
  Under \<open>tinyConfig\<close> a direct file holds at most 2 sectors (4 bytes) and an indexed file at
  most 4 sectors (8 bytes).  \<open>freeMap8\<close> is a disk of 8 sectors, all free.
\<close>

definition freeMap8 :: BitMap where
  "freeMap8 = [False, False, False, False, False, False, False, False]"

text \<open>What \<open>Allocate\<close> builds from \<open>emptyHeader\<close> and \<open>freeMap8\<close> for a file of 2 bytes.\<close>

definition file2 :: FileHeader where
  "file2 = \<lparr>numBytes = 2, numSectors = 1, useIndex = False, dataSectors = (\<lambda>i. 0)(0 := 0)\<rparr>"

definition map2 :: BitMap where
  "map2 = [True, False, False, False, False, False, False, False]"

text \<open>The same for a file of 3 bytes: two direct sectors.\<close>

definition file3 :: FileHeader where
  "file3 = \<lparr>numBytes = 3, numSectors = 2, useIndex = False, dataSectors = (\<lambda>i. 0)(0 := 0, 1 := 1)\<rparr>"

definition map3 :: BitMap where
  "map3 = [True, True, False, False, False, False, False, False]"

text \<open>The same for a file of 7 bytes: four data sectors behind two index nodes.\<close>

definition file7 :: FileHeader where
  "file7 = \<lparr>numBytes = 7, numSectors = 4, useIndex = True, dataSectors = (\<lambda>i. 0)(0 := 0, 1 := 3)\<rparr>"

definition map7 :: BitMap where
  "map7 = [True, True, True, True, True, True, False, False]"

definition disk7 :: disk where
  "disk7 = blankDisk(0 := newNode(0 \<mapsto> 1, 1 \<mapsto> 2), 3 := newNode(0 \<mapsto> 4, 1 \<mapsto> 5))"

text \<open>What \<open>addLength\<close> makes of \<open>file3\<close> when 4 bytes are added: the file becomes indexed.\<close>

definition file3grown :: FileHeader where
  "file3grown =
     \<lparr>numBytes = 7, numSectors = 4, useIndex = True, dataSectors = (\<lambda>i. 0)(0 := 2, 1 := 3)\<rparr>"

definition disk3grown :: disk where
  "disk3grown = blankDisk(2 := newNode(0 \<mapsto> 0, 1 \<mapsto> 1), 3 := newNode(0 \<mapsto> 4, 1 \<mapsto> 5))"

text \<open>
  A file of one 128-byte sector under \<open>specConfig\<close>, stored in sector 2 of a disk of 4 sectors
  that are all allocated.
\<close>

definition file128 :: FileHeader where
  "file128 = \<lparr>numBytes = 128, numSectors = 1, useIndex = False, dataSectors = (\<lambda>i. 0)(0 := 2)\<rparr>"

definition fullMap4 :: BitMap where
  "fullMap4 = [True, True, True, True]"

section \<open>Basic properties\<close>

subsection \<open>Arithmetic\<close>

lemma divRoundUp_ceiling: "0 < s \<Longrightarrow> divRoundUp n s = \<lceil>real_of_int n / real_of_int s\<rceil>"
proof -
  have "\<lfloor>real_of_int (- n) / real_of_int s\<rfloor> = (- n) div s"
    by (rule floor_divide_of_int_eq)
  then show ?thesis
    by (simp add: divRoundUp_def ceiling_def)
qed

lemma divRoundUp_bounds:
  assumes "0 < s"
  shows "n \<le> s * divRoundUp n s" and "s * (divRoundUp n s - 1) < n"
proof -
  define q where "q = (- n) div s"
  define r where "r = (- n) mod s"
  have e: "s * q + r = - n" unfolding q_def r_def by simp
  have r: "0 \<le> r" "r < s" using assms by (simp_all add: r_def)
  have d: "divRoundUp n s = - q" by (simp add: divRoundUp_def q_def)
  have "s * (- q) = n + r" using e by (simp add: algebra_simps)
  then show "n \<le> s * divRoundUp n s" using r d by simp
  have "s * (- q - 1) = n + r - s" using e by (simp add: algebra_simps)
  then show "s * (divRoundUp n s - 1) < n" using r d by simp
qed

lemma divRoundUp_le_iff: "0 < s \<Longrightarrow> divRoundUp n s \<le> k \<longleftrightarrow> n \<le> s * k"
proof
  assume s: "0 < s" and "divRoundUp n s \<le> k"
  then have "s * divRoundUp n s \<le> s * k" by simp
  with divRoundUp_bounds(1)[OF s, of n] show "n \<le> s * k" by linarith
next
  assume s: "0 < s" and le: "n \<le> s * k"
  show "divRoundUp n s \<le> k"
  proof (rule ccontr)
    assume "\<not> divRoundUp n s \<le> k"
    then have "k \<le> divRoundUp n s - 1" by simp
    with s have "s * k \<le> s * (divRoundUp n s - 1)" by simp
    with divRoundUp_bounds(2)[OF s, of n] le show False by linarith
  qed
qed

lemma divRoundUp_mono: "0 < s \<Longrightarrow> m \<le> n \<Longrightarrow> divRoundUp m s \<le> divRoundUp n s"
  unfolding divRoundUp_def by (simp add: zdiv_mono1)

lemma divRoundUp_pos_iff: "0 < s \<Longrightarrow> 0 < divRoundUp n s \<longleftrightarrow> 0 < n"
  using divRoundUp_le_iff[of s n 0] by auto

lemma cdiv_nonneg: "0 \<le> a \<Longrightarrow> 0 < b \<Longrightarrow> cdiv a b = a div b"
  by (cases "a = 0") (simp_all add: cdiv_def)

lemma cmod_nonneg: "0 \<le> a \<Longrightarrow> 0 < b \<Longrightarrow> cmod a b = a mod b"
  by (simp add: cmod_def cdiv_nonneg minus_div_mult_eq_mod)

subsection \<open>The bitmap\<close>

lemma firstClear_None: "firstClear bm = None \<longleftrightarrow> filter Not bm = []"
  by (induction bm) auto

lemma firstClear_Some: "firstClear bm = Some i \<Longrightarrow> i < length bm \<and> \<not> bm ! i"
  by (induction bm arbitrary: i) (auto split: if_splits)

lemma length_filter_Not_set:
  "i < length bm \<Longrightarrow> \<not> bm ! i \<Longrightarrow> Suc (length (filter Not (bm[i := True]))) = length (filter Not bm)"
proof (induction bm arbitrary: i)
  case Nil
  then show ?case by simp
next
  case (Cons b bs)
  then show ?case by (cases i) auto
qed

lemma length_filter_Not_clear:
  "i < length bm \<Longrightarrow> bm ! i \<Longrightarrow> length (filter Not (bm[i := False])) = Suc (length (filter Not bm))"
proof (induction bm arbitrary: i)
  case Nil
  then show ?case by simp
next
  case (Cons b bs)
  then show ?case by (cases i) auto
qed

lemma NumClear_nonneg: "0 \<le> NumClear bm"
  by (simp add: NumClear_def)

lemma Test_Mark: "Test (Mark bm s) t \<longleftrightarrow> (t = s \<and> 0 \<le> s \<and> nat s < length bm) \<or> Test bm t"
  by (cases "nat s < length bm") (auto simp: Test_def Mark_def nth_list_update eq_nat_nat_iff)

lemma Test_Clear: "Test (Clear bm s) t \<longleftrightarrow> t \<noteq> s \<and> Test bm t"
  by (cases "nat s < length bm") (auto simp: Test_def Clear_def nth_list_update eq_nat_nat_iff)

lemma NumClear_Mark:
  "0 \<le> s \<Longrightarrow> nat s < length bm \<Longrightarrow> \<not> Test bm s \<Longrightarrow> NumClear (Mark bm s) = NumClear bm - 1"
  using length_filter_Not_set[of "nat s" bm] by (simp add: NumClear_def Mark_def Test_def)

lemma NumClear_Clear: "Test bm s \<Longrightarrow> NumClear (Clear bm s) = NumClear bm + 1"
  using length_filter_Not_clear[of "nat s" bm] by (simp add: NumClear_def Clear_def Test_def)

lemma Find_some:
  assumes "0 < NumClear bm"
  shows "\<exists>s. Find bm = (s, Mark bm s) \<and> 0 \<le> s \<and> nat s < length bm \<and> \<not> Test bm s"
proof -
  from assms have "firstClear bm \<noteq> None"
    by (auto simp: firstClear_None NumClear_def)
  then obtain i where i: "firstClear bm = Some i" by auto
  from firstClear_Some[OF i] i show ?thesis
    by (simp add: Find_def Test_def)
qed

lemma Find_none: "NumClear bm \<le> 0 \<Longrightarrow> Find bm = (NoSector, bm)"
  by (simp add: Find_def NumClear_def firstClear_None[symmetric])

subsection \<open>Drawing sectors\<close>

lemma drawn_Nil: "drawn bm bm []"
  by (simp add: drawn_def)

lemma drawn_Find:
  assumes "0 < NumClear bm" and "Find bm = (s, bm')"
  shows "drawn bm bm' [s]"
proof -
  from Find_some[OF assms(1)] assms(2)
  have s: "bm' = Mark bm s" "0 \<le> s" "nat s < length bm" "\<not> Test bm s" by auto
  show ?thesis
    using s by (auto simp: drawn_def Test_Mark NumClear_Mark)
qed

lemma drawn_append:
  assumes "drawn bm bm1 xs" and "drawn bm1 bm2 ys"
  shows "drawn bm bm2 (xs @ ys)"
  using assms unfolding drawn_def by (simp, blast)

lemma drawn_append_rev:
  assumes "drawn bm bm1 xs" and "drawn bm1 bm2 ys"
  shows "drawn bm bm2 (ys @ xs)"
  using assms unfolding drawn_def by (simp, blast)

lemma drawn_mono: "drawn bm bm' xs \<Longrightarrow> Test bm t \<Longrightarrow> Test bm' t"
  by (simp add: drawn_def)

lemma drawn_set: "drawn bm bm' xs \<Longrightarrow> x \<in> set xs \<Longrightarrow> Test bm' x \<and> \<not> Test bm x"
  by (auto simp: drawn_def)

subsection \<open>Freeing sectors\<close>

lemma freeList_append:
  "freeList bm (xs @ ys) = (case freeList bm xs of Inl e \<Rightarrow> Inl e | Inr bm' \<Rightarrow> freeList bm' ys)"
proof (induction xs arbitrary: bm)
  case Nil
  show ?case by simp
next
  case (Cons x xs)
  show ?case by (cases "freeSector bm x") (simp_all add: Cons.IH)
qed

lemma freeList_Cons_Inr:
  "freeList bm (x # xs) = Inr bm' \<Longrightarrow> Test bm x \<and> freeList (Clear bm x) xs = Inr bm'"
  by (cases "Test bm x") (simp_all add: freeSector_def)

lemma freeList_Inr:
  "freeList bm xs = Inr bm' \<Longrightarrow>
     distinct xs \<and> (\<forall>s\<in>set xs. Test bm s) \<and> NumClear bm' = NumClear bm + int (length xs) \<and>
     (\<forall>t. Test bm' t \<longleftrightarrow> Test bm t \<and> t \<notin> set xs)"
proof (induction xs arbitrary: bm)
  case Nil
  then show ?case by simp
next
  case (Cons x xs)
  from freeList_Cons_Inr[OF Cons.prems]
  have t: "Test bm x" and r: "freeList (Clear bm x) xs = Inr bm'" by simp_all
  from Cons.IH[OF r]
  have d: "distinct xs"
    and a: "\<forall>s\<in>set xs. Test (Clear bm x) s"
    and n: "NumClear bm' = NumClear (Clear bm x) + int (length xs)"
    and f: "\<forall>t. Test bm' t \<longleftrightarrow> Test (Clear bm x) t \<and> t \<notin> set xs"
    by simp_all
  from a have a': "\<forall>s\<in>set xs. s \<noteq> x \<and> Test bm s"
    by (simp add: Test_Clear)
  have 1: "distinct (x # xs)"
    using d a' by auto
  have 2: "\<forall>s\<in>set (x # xs). Test bm s"
    using t a' by simp
  have 3: "NumClear bm' = NumClear bm + int (length (x # xs))"
    using n t by (simp add: NumClear_Clear)
  have 4: "\<forall>t. Test bm' t \<longleftrightarrow> Test bm t \<and> t \<notin> set (x # xs)"
    using f by (auto simp: Test_Clear)
  from 1 2 3 4 show ?case by blast
qed

lemma freeList_ok:
  "distinct xs \<Longrightarrow> \<forall>s\<in>set xs. Test bm s \<Longrightarrow> \<exists>bm'. freeList bm xs = Inr bm'"
proof (induction xs arbitrary: bm)
  case Nil
  then show ?case by simp
next
  case (Cons x xs)
  have "\<forall>s\<in>set xs. Test (Clear bm x) s"
    using Cons.prems by (auto simp: Test_Clear)
  moreover have "distinct xs" using Cons.prems by simp
  ultimately obtain bm' where "freeList (Clear bm x) xs = Inr bm'"
    using Cons.IH by blast
  moreover have "Test bm x" using Cons.prems by simp
  ultimately show ?case by (simp add: freeSector_def)
qed

lemma freeList_drawn:
  assumes "drawn bm0 bm xs"
  shows "\<exists>bm'. freeList bm xs = Inr bm' \<and> NumClear bm' = NumClear bm0"
proof -
  from assms have "distinct xs" "\<forall>s\<in>set xs. Test bm s"
    by (auto simp: drawn_def)
  from freeList_ok[OF this] obtain bm' where r: "freeList bm xs = Inr bm'" by blast
  from freeList_Inr[OF r] assms have "NumClear bm' = NumClear bm0"
    by (simp add: drawn_def)
  with r show ?thesis by blast
qed

lemma freeList_twice:
  assumes "freeList bm xs = Inr bm'" and "xs \<noteq> []"
  shows "freeList bm' xs = Inl AssertionFailed"
proof -
  from assms(2) obtain x ys where xs: "xs = x # ys" by (cases xs) auto
  from freeList_Inr[OF assms(1)] xs have "\<not> Test bm' x" by simp
  then show ?thesis by (simp add: xs freeSector_def)
qed

declare fillSlots.simps [simp del] fillEntries.simps [simp del] allocNodes.simps [simp del]
  freeSlots.simps [simp del] freeEntries.simps [simp del] freeNodes.simps [simp del]
  copySlots.simps [simp del]

subsection \<open>Filling header slots\<close>

lemma fillSlots_Inr:
  "fillSlots cfg i n st = Inr st' \<Longrightarrow>
     (i < n \<longrightarrow> 0 \<le> i \<and> n \<le> NumFirst cfg) \<and>
     (\<forall>k. k < i \<or> n \<le> k \<longrightarrow> fst st' k = fst st k) \<and>
     (n - i \<le> NumClear (snd st) \<longrightarrow> drawn (snd st) (snd st') (map (fst st') [i..n - 1]))"
proof (induction cfg i n st arbitrary: st' rule: fillSlots.induct)
  case (1 cfg i n arr bm)
  show ?case
  proof (cases "i < n")
    case False
    with "1.prems" have "st' = (arr, bm)"
      by (simp add: fillSlots.simps)
    with False show ?thesis
      by (simp add: drawn_Nil)
  next
    case True
    obtain s bm1 where F: "Find bm = (s, bm1)"
      by (cases "Find bm")
    from "1.prems" True F obtain arr1
      where S: "setSlot cfg arr i s = Inr arr1"
        and R: "fillSlots cfg (i + 1) n (arr1, bm1) = Inr st'"
      by (auto simp: fillSlots.simps[of cfg i n] split: sum.splits)
    from S have b: "0 \<le> i" "i < NumFirst cfg" and arr1: "arr1 = arr(i := s)"
      by (auto simp: setSlot_def split: if_splits)
    from "1.IH"[OF True F[symmetric] S R]
    have ih1: "i + 1 < n \<longrightarrow> n \<le> NumFirst cfg"
      and ih2: "\<forall>k. k < i + 1 \<or> n \<le> k \<longrightarrow> fst st' k = arr1 k"
      and ih3: "n - (i + 1) \<le> NumClear bm1 \<longrightarrow> drawn bm1 (snd st') (map (fst st') [i + 1..n - 1])"
      by simp_all
    have 1: "i < n \<longrightarrow> 0 \<le> i \<and> n \<le> NumFirst cfg"
      using b ih1 by (cases "i + 1 < n") auto
    have 2: "\<forall>k. k < i \<or> n \<le> k \<longrightarrow> fst st' k = fst (arr, bm) k"
      using ih2 True by (simp add: arr1)
    have 3: "drawn bm (snd st') (map (fst st') [i..n - 1])" if enough: "n - i \<le> NumClear bm"
    proof -
      from enough True have pos: "0 < NumClear bm" by simp
      from drawn_Find[OF pos F] have d1: "drawn bm bm1 [s]" .
      then have "NumClear bm1 = NumClear bm - 1" by (simp add: drawn_def)
      with enough ih3 have d2: "drawn bm1 (snd st') (map (fst st') [i + 1..n - 1])" by simp
      from ih2 have "fst st' i = s" by (simp add: arr1)
      moreover from True have "[i..n - 1] = i # [i + 1..n - 1]" by (simp add: upto_rec1)
      ultimately show ?thesis using drawn_append[OF d1 d2] by simp
    qed
    from 1 2 3 show ?thesis by simp
  qed
qed

lemma fillSlots_ok:
  "i < n \<longrightarrow> 0 \<le> i \<and> n \<le> NumFirst cfg \<Longrightarrow> \<exists>st'. fillSlots cfg i n st = Inr st'"
proof (induction cfg i n st rule: fillSlots.induct)
  case (1 cfg i n arr bm)
  show ?case
  proof (cases "i < n")
    case False
    then show ?thesis by (simp add: fillSlots.simps)
  next
    case True
    obtain s bm1 where F: "Find bm = (s, bm1)"
      by (cases "Find bm")
    from True "1.prems" have S: "setSlot cfg arr i s = Inr (arr(i := s))"
      by (simp add: setSlot_def)
    from "1.prems" True have "i + 1 < n \<longrightarrow> 0 \<le> i + 1 \<and> n \<le> NumFirst cfg" by simp
    from "1.IH"[OF True F[symmetric] S this] True F S show ?thesis
      by (simp add: fillSlots.simps[of cfg i n])
  qed
qed

subsection \<open>Filling the entries of an index node\<close>

lemma fillEntries_Inr:
  "fillEntries cfg j n st = Inr st' \<Longrightarrow>
     (j < n \<longrightarrow> 0 \<le> j \<and> n \<le> NumSecond cfg) \<and>
     (\<forall>k. k < j \<or> n \<le> k \<longrightarrow> fst st' k = fst st k) \<and>
     (\<forall>k. j \<le> k \<and> k < n \<longrightarrow> fst st' k \<noteq> None) \<and>
     (n - j \<le> NumClear (snd st) \<longrightarrow>
        drawn (snd st) (snd st') (map (\<lambda>k. the (fst st' k)) [j..n - 1]))"
proof (induction cfg j n st arbitrary: st' rule: fillEntries.induct)
  case (1 cfg j n node bm)
  show ?case
  proof (cases "j < n")
    case False
    with "1.prems" have "st' = (node, bm)"
      by (simp add: fillEntries.simps)
    with False show ?thesis
      by (auto simp: drawn_Nil)
  next
    case True
    obtain s bm1 where F: "Find bm = (s, bm1)"
      by (cases "Find bm")
    from "1.prems" True F obtain node1
      where S: "setEntry cfg node j s = Inr node1"
        and R: "fillEntries cfg (j + 1) n (node1, bm1) = Inr st'"
      by (auto simp: fillEntries.simps[of cfg j n] split: sum.splits)
    from S have b: "0 \<le> j" "j < NumSecond cfg" and node1: "node1 = node(j := Some s)"
      by (auto simp: setEntry_def split: if_splits)
    from "1.IH"[OF True F[symmetric] S R]
    have ih1: "j + 1 < n \<longrightarrow> n \<le> NumSecond cfg"
      and ih2: "\<forall>k. k < j + 1 \<or> n \<le> k \<longrightarrow> fst st' k = node1 k"
      and ih3: "\<forall>k. j + 1 \<le> k \<and> k < n \<longrightarrow> fst st' k \<noteq> None"
      and ih4: "n - (j + 1) \<le> NumClear bm1 \<longrightarrow>
          drawn bm1 (snd st') (map (\<lambda>k. the (fst st' k)) [j + 1..n - 1])"
      by simp_all
    from ih2 have at_j: "fst st' j = Some s" by (simp add: node1)
    have 1: "j < n \<longrightarrow> 0 \<le> j \<and> n \<le> NumSecond cfg"
      using b ih1 by (cases "j + 1 < n") auto
    have 2: "\<forall>k. k < j \<or> n \<le> k \<longrightarrow> fst st' k = fst (node, bm) k"
      using ih2 True by (simp add: node1)
    have 3: "\<forall>k. j \<le> k \<and> k < n \<longrightarrow> fst st' k \<noteq> None"
    proof (intro allI impI)
      fix k assume k: "j \<le> k \<and> k < n"
      show "fst st' k \<noteq> None"
      proof (cases "k = j")
        case True
        with at_j show ?thesis by simp
      next
        case False
        with k ih3 show ?thesis by simp
      qed
    qed
    have 4: "drawn bm (snd st') (map (\<lambda>k. the (fst st' k)) [j..n - 1])"
      if enough: "n - j \<le> NumClear bm"
    proof -
      from enough True have pos: "0 < NumClear bm" by simp
      from drawn_Find[OF pos F] have d1: "drawn bm bm1 [s]" .
      then have "NumClear bm1 = NumClear bm - 1" by (simp add: drawn_def)
      with enough ih4 have d2: "drawn bm1 (snd st') (map (\<lambda>k. the (fst st' k)) [j + 1..n - 1])"
        by simp
      from True have "[j..n - 1] = j # [j + 1..n - 1]" by (simp add: upto_rec1)
      with at_j show ?thesis using drawn_append[OF d1 d2] by simp
    qed
    from 1 2 3 4 show ?thesis by simp
  qed
qed

lemma fillEntries_ok:
  "j < n \<longrightarrow> 0 \<le> j \<and> n \<le> NumSecond cfg \<Longrightarrow> \<exists>st'. fillEntries cfg j n st = Inr st'"
proof (induction cfg j n st rule: fillEntries.induct)
  case (1 cfg j n node bm)
  show ?case
  proof (cases "j < n")
    case False
    then show ?thesis by (simp add: fillEntries.simps)
  next
    case True
    obtain s bm1 where F: "Find bm = (s, bm1)"
      by (cases "Find bm")
    from True "1.prems" have S: "setEntry cfg node j s = Inr (node(j := Some s))"
      by (simp add: setEntry_def)
    from "1.prems" True have "j + 1 < n \<longrightarrow> 0 \<le> j + 1 \<and> n \<le> NumSecond cfg" by simp
    from "1.IH"[OF True F[symmetric] S this] True F S show ?thesis
      by (simp add: fillEntries.simps[of cfg j n])
  qed
qed

subsection \<open>Allocating index nodes\<close>

lemma ownedNodes_rec:
  "i < numNode \<Longrightarrow> ownedNodes cfg nSectors numNode arr dsk i =
     ownedNode cfg nSectors numNode arr dsk i @ ownedNodes cfg nSectors numNode arr dsk (i + 1)"
  by (simp add: ownedNodes_def upto_rec1)

lemma ownedNodes_empty: "\<not> i < numNode \<Longrightarrow> ownedNodes cfg nSectors numNode arr dsk i = []"
  by (simp add: ownedNodes_def)

text \<open>The number of sectors the loop over index nodes draws from position \<open>i\<close> on.\<close>

lemma entriesOf_nonneg:
  "0 < NumSecond cfg \<Longrightarrow> NumSecond cfg * (numNode - 1) \<le> nSectors \<Longrightarrow>
     0 \<le> entriesOf cfg nSectors numNode i"
  by (simp add: entriesOf_def)

lemma entriesOf_step:
  assumes "i < numNode"
  shows "1 + entriesOf cfg nSectors numNode i
           + (if i + 1 < numNode then nSectors - (i + 1) * NumSecond cfg + numNode - (i + 1) else 0)
         = nSectors - i * NumSecond cfg + numNode - i"
proof (cases "i < numNode - 1")
  case True
  then show ?thesis by (simp add: entriesOf_def algebra_simps)
next
  case False
  with assms have "numNode = i + 1" by simp
  then show ?thesis by (simp add: entriesOf_def algebra_simps)
qed

lemma drawCount_pos:
  assumes "0 < NumSecond cfg" and "NumSecond cfg * (numNode - 1) \<le> nSectors" and "k < numNode"
  shows "0 < nSectors - k * NumSecond cfg + numNode - k"
proof -
  from assms(3) have "k \<le> numNode - 1" by simp
  with assms(1) have "NumSecond cfg * k \<le> NumSecond cfg * (numNode - 1)"
    by (intro mult_left_mono) simp_all
  with assms(2,3) show ?thesis by (simp add: mult.commute)
qed

lemma allocNodes_Inr:
  assumes "allocNodes cfg nSectors numNode i st = Inr st'"
    and "0 < NumSecond cfg"
    and "NumSecond cfg * (numNode - 1) \<le> nSectors"
  shows "(i < numNode \<longrightarrow> 0 \<le> i \<and> numNode \<le> NumFirst cfg) \<and>
     (\<forall>k. k < i \<or> numNode \<le> k \<longrightarrow> fst st' k = fst st k) \<and>
     ((i < numNode \<longrightarrow> nSectors - i * NumSecond cfg + numNode - i \<le> NumClear (fst (snd st))) \<longrightarrow>
        drawn (fst (snd st)) (fst (snd st'))
          (ownedNodes cfg nSectors numNode (fst st') (snd (snd st')) i) \<and>
        (\<forall>s. Test (fst (snd st)) s \<longrightarrow> snd (snd st') s = snd (snd st) s) \<and>
        (\<forall>k. i \<le> k \<and> k < numNode \<longrightarrow>
           (\<forall>j. 0 \<le> j \<and> j < entriesOf cfg nSectors numNode k \<longrightarrow>
              snd (snd st') (fst st' k) j \<noteq> None)))"
  using assms
proof (induction cfg nSectors numNode i st arbitrary: st' rule: allocNodes.induct)
  case (1 cfg nSectors numNode i arr bm dsk)
  note ns = \<open>0 < NumSecond cfg\<close> and tl = \<open>NumSecond cfg * (numNode - 1) \<le> nSectors\<close>
  obtain arr' bm' dsk' where st': "st' = (arr', bm', dsk')"
    by (cases st') auto
  show ?case
  proof (cases "i < numNode")
    case False
    with "1.prems" have "st' = (arr, bm, dsk)"
      by (simp add: allocNodes.simps)
    with False show ?thesis
      by (auto simp: drawn_Nil ownedNodes_empty)
  next
    case True
    define cnt where "cnt = entriesOf cfg nSectors numNode i"
    obtain sector bm1 where F: "Find bm = (sector, bm1)"
      by (cases "Find bm")
    from "1.prems"(1) True F obtain arr1 node bm2
      where S: "setSlot cfg arr i sector = Inr arr1"
        and E: "fillEntries cfg 0 cnt (newNode, bm1) = Inr (node, bm2)"
        and R: "allocNodes cfg nSectors numNode (i + 1) (arr1, bm2, dsk(sector := node)) = Inr st'"
      by (auto simp: allocNodes.simps[of cfg nSectors numNode i] cnt_def split: sum.splits)
    from S have b: "0 \<le> i" "i < NumFirst cfg" and arr1: "arr1 = arr(i := sector)"
      by (auto simp: setSlot_def split: if_splits)
    from fillEntries_Inr[OF E]
    have e3: "\<forall>k. 0 \<le> k \<and> k < cnt \<longrightarrow> node k \<noteq> None"
      and e4: "cnt \<le> NumClear bm1 \<longrightarrow> drawn bm1 bm2 (map (\<lambda>k. the (node k)) [0..cnt - 1])"
      by simp_all
    from "1.IH"[OF True F[symmetric] S E[unfolded cnt_def] refl R[unfolded st'] ns tl]
    have ih1: "i + 1 < numNode \<longrightarrow> numNode \<le> NumFirst cfg"
      and ih2: "\<forall>k. k < i + 1 \<or> numNode \<le> k \<longrightarrow> arr' k = arr1 k"
      and ih3: "(i + 1 < numNode \<longrightarrow>
            nSectors - (i + 1) * NumSecond cfg + numNode - (i + 1) \<le> NumClear bm2) \<longrightarrow>
          drawn bm2 bm' (ownedNodes cfg nSectors numNode arr' dsk' (i + 1)) \<and>
          (\<forall>s. Test bm2 s \<longrightarrow> dsk' s = (dsk(sector := node)) s) \<and>
          (\<forall>k. i + 1 \<le> k \<and> k < numNode \<longrightarrow>
             (\<forall>j. 0 \<le> j \<and> j < entriesOf cfg nSectors numNode k \<longrightarrow> dsk' (arr' k) j \<noteq> None))"
      by (simp_all add: st')
    have 1: "i < numNode \<longrightarrow> 0 \<le> i \<and> numNode \<le> NumFirst cfg"
      using b ih1 by (cases "i + 1 < numNode") auto
    have 2: "\<forall>k. k < i \<or> numNode \<le> k \<longrightarrow> arr' k = arr k"
      using ih2 True by (simp add: arr1)
    have 3: "drawn bm bm' (ownedNodes cfg nSectors numNode arr' dsk' i) \<and>
        (\<forall>s. Test bm s \<longrightarrow> dsk' s = dsk s) \<and>
        (\<forall>k. i \<le> k \<and> k < numNode \<longrightarrow>
           (\<forall>j. 0 \<le> j \<and> j < entriesOf cfg nSectors numNode k \<longrightarrow> dsk' (arr' k) j \<noteq> None))"
      if enough: "nSectors - i * NumSecond cfg + numNode - i \<le> NumClear bm"
    proof -
      have cnt0: "0 \<le> cnt"
        unfolding cnt_def by (rule entriesOf_nonneg[OF ns tl])
      define rest where "rest =
        (if i + 1 < numNode then nSectors - (i + 1) * NumSecond cfg + numNode - (i + 1) else 0)"
      have step: "1 + cnt + rest = nSectors - i * NumSecond cfg + numNode - i"
        unfolding cnt_def rest_def by (rule entriesOf_step[OF True])
      have rest0: "0 \<le> rest"
      proof (cases "i + 1 < numNode")
        case True
        from drawCount_pos[OF ns tl True] True show ?thesis
          unfolding rest_def by simp
      next
        case False
        then show ?thesis by (simp add: rest_def)
      qed
      from enough step cnt0 rest0 have pos: "0 < NumClear bm"
        by linarith
      from drawn_Find[OF pos F] have d1: "drawn bm bm1 [sector]" .
      then have n1: "NumClear bm1 = NumClear bm - 1" by (simp add: drawn_def)
      from enough step n1 rest0 have "cnt \<le> NumClear bm1"
        by linarith
      with e4 have d2: "drawn bm1 bm2 (map (\<lambda>k. the (node k)) [0..cnt - 1])" by simp
      then have n2: "NumClear bm2 = NumClear bm1 - cnt"
        using cnt0 by (simp add: drawn_def)
      from enough step n1 n2 have "rest \<le> NumClear bm2"
        by linarith
      then have "i + 1 < numNode \<longrightarrow>
            nSectors - (i + 1) * NumSecond cfg + numNode - (i + 1) \<le> NumClear bm2"
        unfolding rest_def by (cases "i + 1 < numNode") (simp_all only: if_True simp_thms)
      with ih3
      have d3: "drawn bm2 bm' (ownedNodes cfg nSectors numNode arr' dsk' (i + 1))"
        and fr: "\<forall>s. Test bm2 s \<longrightarrow> dsk' s = (dsk(sector := node)) s"
        and nn: "\<forall>k. i + 1 \<le> k \<and> k < numNode \<longrightarrow>
             (\<forall>j. 0 \<le> j \<and> j < entriesOf cfg nSectors numNode k \<longrightarrow> dsk' (arr' k) j \<noteq> None)"
        by simp_all
      from d1 have t1: "Test bm1 sector" "\<not> Test bm sector"
        by (auto simp: drawn_def)
      from drawn_mono[OF d2 t1(1)] have t2: "Test bm2 sector" .
      from ih2 have ai: "arr' i = sector" by (simp add: arr1)
      from fr t2 have di: "dsk' sector = node" by simp
      have on: "ownedNode cfg nSectors numNode arr' dsk' i
          = map (\<lambda>k. the (node k)) [0..cnt - 1] @ [sector]"
        by (simp add: ownedNode_def ai di cnt_def)
      from drawn_append_rev[OF d1 d2] on
      have "drawn bm bm2 (ownedNode cfg nSectors numNode arr' dsk' i)" by simp
      from drawn_append[OF this d3]
      have A: "drawn bm bm' (ownedNodes cfg nSectors numNode arr' dsk' i)"
        by (simp add: ownedNodes_rec[OF True])
      have B: "\<forall>s. Test bm s \<longrightarrow> dsk' s = dsk s"
      proof (intro allI impI)
        fix s assume s: "Test bm s"
        with t1 have "s \<noteq> sector" by auto
        moreover from s have "Test bm2 s"
          using drawn_mono[OF d1] drawn_mono[OF d2] by blast
        ultimately show "dsk' s = dsk s" using fr by simp
      qed
      have C: "\<forall>k. i \<le> k \<and> k < numNode \<longrightarrow>
           (\<forall>j. 0 \<le> j \<and> j < entriesOf cfg nSectors numNode k \<longrightarrow> dsk' (arr' k) j \<noteq> None)"
      proof (intro allI impI)
        fix k j
        assume k: "i \<le> k \<and> k < numNode" and j: "0 \<le> j \<and> j < entriesOf cfg nSectors numNode k"
        show "dsk' (arr' k) j \<noteq> None"
        proof (cases "k = i")
          case True
          with j e3 ai di show ?thesis by (simp add: cnt_def)
        next
          case False
          with k j nn show ?thesis by simp
        qed
      qed
      from A B C show ?thesis by blast
    qed
    from 1 2 3 True show ?thesis by (simp add: st')
  qed
qed

lemma allocNodes_ok:
  assumes "0 \<le> i" and "numNode \<le> NumFirst cfg"
    and "nSectors - NumSecond cfg * (numNode - 1) \<le> NumSecond cfg"
  shows "\<exists>st'. allocNodes cfg nSectors numNode i st = Inr st'"
  using assms
proof (induction cfg nSectors numNode i st rule: allocNodes.induct)
  case (1 cfg nSectors numNode i arr bm dsk)
  show ?case
  proof (cases "i < numNode")
    case False
    then show ?thesis by (simp add: allocNodes.simps)
  next
    case True
    obtain sector bm1 where F: "Find bm = (sector, bm1)"
      by (cases "Find bm")
    from True "1.prems" have S: "setSlot cfg arr i sector = Inr (arr(i := sector))"
      by (simp add: setSlot_def)
    have "entriesOf cfg nSectors numNode i \<le> NumSecond cfg"
      using "1.prems"(3) by (simp add: entriesOf_def)
    then have "\<exists>r. fillEntries cfg 0 (entriesOf cfg nSectors numNode i) (newNode, bm1) = Inr r"
      by (intro fillEntries_ok) simp
    then obtain node bm2
      where E: "fillEntries cfg 0 (entriesOf cfg nSectors numNode i) (newNode, bm1) = Inr (node, bm2)"
      by auto
    from "1.prems" have "0 \<le> i + 1" by simp
    from "1.IH"[OF True F[symmetric] S E refl this "1.prems"(2,3)] True F S E show ?thesis
      by (simp add: allocNodes.simps[of cfg nSectors numNode i])
  qed
qed

subsection \<open>The loops of Deallocate free a list of sectors\<close>

lemma freeSlots_freeList:
  "i < n \<longrightarrow> 0 \<le> i \<and> n \<le> NumFirst cfg \<Longrightarrow>
     freeSlots cfg i n arr bm = freeList bm (map arr [i..n - 1])"
proof (induction cfg i n arr bm rule: freeSlots.induct)
  case (1 cfg i n arr bm)
  show ?case
  proof (cases "i < n")
    case False
    then show ?thesis by (simp add: freeSlots.simps)
  next
    case True
    with "1.prems" have G: "getSlot cfg arr i = Inr (arr i)"
      by (simp add: getSlot_def)
    from True have U: "[i..n - 1] = i # [i + 1..n - 1]"
      by (simp add: upto_rec1)
    show ?thesis
    proof (cases "freeSector bm (arr i)")
      case (Inl e)
      with True G U show ?thesis
        by (simp add: freeSlots.simps[of cfg i n])
    next
      case (Inr bm1)
      from "1.prems" True have "i + 1 < n \<longrightarrow> 0 \<le> i + 1 \<and> n \<le> NumFirst cfg" by simp
      from "1.IH"[OF True G Inr this] True G U Inr show ?thesis
        by (simp add: freeSlots.simps[of cfg i n])
    qed
  qed
qed

lemma freeSlots_Inr:
  "freeSlots cfg i n arr bm = Inr bm' \<Longrightarrow> i < n \<longrightarrow> 0 \<le> i \<and> n \<le> NumFirst cfg"
proof (induction cfg i n arr bm rule: freeSlots.induct)
  case (1 cfg i n arr bm)
  show ?case
  proof (cases "i < n")
    case False
    then show ?thesis by simp
  next
    case True
    from "1.prems" True obtain s bm1
      where G: "getSlot cfg arr i = Inr s" and S: "freeSector bm s = Inr bm1"
        and R: "freeSlots cfg (i + 1) n arr bm1 = Inr bm'"
      by (auto simp: freeSlots.simps[of cfg i n] split: sum.splits)
    from G have b: "0 \<le> i" "i < NumFirst cfg"
      by (auto simp: getSlot_def split: if_splits)
    from "1.IH"[OF True G S R] b show ?thesis
      by (cases "i + 1 < n") auto
  qed
qed

lemma freeEntries_freeList:
  "j < n \<longrightarrow> 0 \<le> j \<and> n \<le> NumSecond cfg \<Longrightarrow> \<forall>k. j \<le> k \<and> k < n \<longrightarrow> node k \<noteq> None \<Longrightarrow>
     freeEntries cfg j n node bm = freeList bm (map (\<lambda>k. the (node k)) [j..n - 1])"
proof (induction cfg j n node bm rule: freeEntries.induct)
  case (1 cfg j n node bm)
  show ?case
  proof (cases "j < n")
    case False
    then show ?thesis by (simp add: freeEntries.simps)
  next
    case True
    with "1.prems" obtain s where s: "node j = Some s" by auto
    with True "1.prems" have G: "getEntry cfg node j = Inr s"
      by (simp add: getEntry_def)
    from True have U: "[j..n - 1] = j # [j + 1..n - 1]"
      by (simp add: upto_rec1)
    show ?thesis
    proof (cases "freeSector bm s")
      case (Inl e)
      with True G U s show ?thesis
        by (simp add: freeEntries.simps[of cfg j n])
    next
      case (Inr bm1)
      from "1.prems" True have a: "j + 1 < n \<longrightarrow> 0 \<le> j + 1 \<and> n \<le> NumSecond cfg" by simp
      from "1.prems" have b: "\<forall>k. j + 1 \<le> k \<and> k < n \<longrightarrow> node k \<noteq> None" by simp
      from "1.IH"[OF True G Inr a b] True G U Inr s show ?thesis
        by (simp add: freeEntries.simps[of cfg j n])
    qed
  qed
qed

lemma freeEntries_Inr:
  "freeEntries cfg j n node bm = Inr bm' \<Longrightarrow>
     (j < n \<longrightarrow> 0 \<le> j \<and> n \<le> NumSecond cfg) \<and> (\<forall>k. j \<le> k \<and> k < n \<longrightarrow> node k \<noteq> None)"
proof (induction cfg j n node bm rule: freeEntries.induct)
  case (1 cfg j n node bm)
  show ?case
  proof (cases "j < n")
    case False
    then show ?thesis by auto
  next
    case True
    from "1.prems" True obtain s bm1
      where G: "getEntry cfg node j = Inr s" and S: "freeSector bm s = Inr bm1"
        and R: "freeEntries cfg (j + 1) n node bm1 = Inr bm'"
      by (auto simp: freeEntries.simps[of cfg j n] split: sum.splits)
    from G have b: "0 \<le> j" "j < NumSecond cfg" "node j \<noteq> None"
      by (auto simp: getEntry_def split: if_splits option.splits)
    from "1.IH"[OF True G S R]
    have ih1: "j + 1 < n \<longrightarrow> n \<le> NumSecond cfg"
      and ih2: "\<forall>k. j + 1 \<le> k \<and> k < n \<longrightarrow> node k \<noteq> None"
      by simp_all
    have "\<forall>k. j \<le> k \<and> k < n \<longrightarrow> node k \<noteq> None"
    proof (intro allI impI)
      fix k assume k: "j \<le> k \<and> k < n"
      show "node k \<noteq> None"
      proof (cases "k = j")
        case True
        with b show ?thesis by simp
      next
        case False
        with k ih2 show ?thesis by simp
      qed
    qed
    moreover have "j < n \<longrightarrow> 0 \<le> j \<and> n \<le> NumSecond cfg"
      using b ih1 by (cases "j + 1 < n") auto
    ultimately show ?thesis by blast
  qed
qed

text \<open>What the loop over index nodes needs for its array accesses to be in range.\<close>

lemma freeNodes_freeList:
  assumes "i < numNode \<longrightarrow> 0 \<le> i \<and> numNode \<le> NumFirst cfg"
    and "\<forall>k. i \<le> k \<and> k < numNode \<longrightarrow>
           (0 < entriesOf cfg nSectors numNode k \<longrightarrow> entriesOf cfg nSectors numNode k \<le> NumSecond cfg) \<and>
           (\<forall>j. 0 \<le> j \<and> j < entriesOf cfg nSectors numNode k \<longrightarrow> dsk (arr k) j \<noteq> None)"
  shows "freeNodes cfg nSectors numNode i arr dsk bm
     = freeList bm (ownedNodes cfg nSectors numNode arr dsk i)"
  using assms
proof (induction cfg nSectors numNode i arr dsk bm rule: freeNodes.induct)
  case (1 cfg nSectors numNode i arr dsk bm)
  show ?case
  proof (cases "i < numNode")
    case False
    then show ?thesis by (simp add: freeNodes.simps ownedNodes_empty)
  next
    case True
    define cnt where "cnt = entriesOf cfg nSectors numNode i"
    define es where "es = map (\<lambda>j. the (dsk (arr i) j)) [0..cnt - 1]"
    from True "1.prems" have G: "getSlot cfg arr i = Inr (arr i)"
      by (simp add: getSlot_def)
    from True "1.prems"(2) have c1: "0 < cnt \<longrightarrow> 0 \<le> (0::int) \<and> cnt \<le> NumSecond cfg"
      and c2: "\<forall>j. 0 \<le> j \<and> j < cnt \<longrightarrow> dsk (arr i) j \<noteq> None"
      by (simp_all add: cnt_def)
    from freeEntries_freeList[OF c1 c2]
    have E: "freeEntries cfg 0 cnt (dsk (arr i)) bm = freeList bm es"
      by (simp add: es_def)
    have O: "ownedNodes cfg nSectors numNode arr dsk i
        = es @ [arr i] @ ownedNodes cfg nSectors numNode arr dsk (i + 1)"
      by (simp add: ownedNodes_rec[OF True] ownedNode_def es_def cnt_def)
    show ?thesis
    proof (cases "freeList bm es")
      case (Inl e)
      with True G E O show ?thesis
        by (simp add: freeNodes.simps[of cfg nSectors numNode i] freeList_append cnt_def[symmetric])
    next
      case bm1: (Inr bm1)
      show ?thesis
      proof (cases "freeSector bm1 (arr i)")
        case (Inl e)
        with True G E O bm1 show ?thesis
          by (simp add: freeNodes.simps[of cfg nSectors numNode i] freeList_append
              cnt_def[symmetric])
      next
        case bm2: (Inr bm2)
        from "1.prems" True
        have a: "i + 1 < numNode \<longrightarrow> 0 \<le> i + 1 \<and> numNode \<le> NumFirst cfg" by simp
        from "1.prems"(2)
        have b: "\<forall>k. i + 1 \<le> k \<and> k < numNode \<longrightarrow>
           (0 < entriesOf cfg nSectors numNode k \<longrightarrow> entriesOf cfg nSectors numNode k \<le> NumSecond cfg) \<and>
           (\<forall>j. 0 \<le> j \<and> j < entriesOf cfg nSectors numNode k \<longrightarrow> dsk (arr k) j \<noteq> None)"
          by simp
        from E bm1 have E': "freeEntries cfg 0 (entriesOf cfg nSectors numNode i) (dsk (arr i)) bm = Inr bm1"
          by (simp add: cnt_def)
        from "1.IH"[OF True G E' bm2 a b] True G E O bm1 bm2 show ?thesis
          by (simp add: freeNodes.simps[of cfg nSectors numNode i] freeList_append
              cnt_def[symmetric])
      qed
    qed
  qed
qed

lemma freeNodes_Inr:
  assumes "freeNodes cfg nSectors numNode i arr dsk bm = Inr bm'"
  shows "(i < numNode \<longrightarrow> 0 \<le> i \<and> numNode \<le> NumFirst cfg) \<and>
     (\<forall>k. i \<le> k \<and> k < numNode \<longrightarrow>
        (0 < entriesOf cfg nSectors numNode k \<longrightarrow> entriesOf cfg nSectors numNode k \<le> NumSecond cfg) \<and>
        (\<forall>j. 0 \<le> j \<and> j < entriesOf cfg nSectors numNode k \<longrightarrow> dsk (arr k) j \<noteq> None))"
  using assms
proof (induction cfg nSectors numNode i arr dsk bm rule: freeNodes.induct)
  case (1 cfg nSectors numNode i arr dsk bm)
  show ?case
  proof (cases "i < numNode")
    case False
    then show ?thesis by auto
  next
    case True
    from "1.prems" True obtain s bm1 bm2
      where G: "getSlot cfg arr i = Inr s"
        and E: "freeEntries cfg 0 (entriesOf cfg nSectors numNode i) (dsk s) bm = Inr bm1"
        and S: "freeSector bm1 s = Inr bm2"
        and R: "freeNodes cfg nSectors numNode (i + 1) arr dsk bm2 = Inr bm'"
      by (auto simp: freeNodes.simps[of cfg nSectors numNode i] split: sum.splits)
    from G have b: "0 \<le> i" "i < NumFirst cfg" and s: "s = arr i"
      by (auto simp: getSlot_def split: if_splits)
    from freeEntries_Inr[OF E]
    have e1: "0 < entriesOf cfg nSectors numNode i \<longrightarrow> entriesOf cfg nSectors numNode i \<le> NumSecond cfg"
      and e2: "\<forall>j. 0 \<le> j \<and> j < entriesOf cfg nSectors numNode i \<longrightarrow> dsk (arr i) j \<noteq> None"
      by (simp_all add: s)
    from "1.IH"[OF True G E S R]
    have ih1: "i + 1 < numNode \<longrightarrow> numNode \<le> NumFirst cfg"
      and ih2: "\<forall>k. i + 1 \<le> k \<and> k < numNode \<longrightarrow>
        (0 < entriesOf cfg nSectors numNode k \<longrightarrow> entriesOf cfg nSectors numNode k \<le> NumSecond cfg) \<and>
        (\<forall>j. 0 \<le> j \<and> j < entriesOf cfg nSectors numNode k \<longrightarrow> dsk (arr k) j \<noteq> None)"
      by simp_all
    have A: "i < numNode \<longrightarrow> 0 \<le> i \<and> numNode \<le> NumFirst cfg"
      using b ih1 by (cases "i + 1 < numNode") auto
    have B: "\<forall>k. i \<le> k \<and> k < numNode \<longrightarrow>
        (0 < entriesOf cfg nSectors numNode k \<longrightarrow> entriesOf cfg nSectors numNode k \<le> NumSecond cfg) \<and>
        (\<forall>j. 0 \<le> j \<and> j < entriesOf cfg nSectors numNode k \<longrightarrow> dsk (arr k) j \<noteq> None)"
    proof (intro allI impI)
      fix k assume k: "i \<le> k \<and> k < numNode"
      show "(0 < entriesOf cfg nSectors numNode k \<longrightarrow> entriesOf cfg nSectors numNode k \<le> NumSecond cfg) \<and>
        (\<forall>j. 0 \<le> j \<and> j < entriesOf cfg nSectors numNode k \<longrightarrow> dsk (arr k) j \<noteq> None)"
      proof (cases "k = i")
        case True
        with e1 e2 show ?thesis by simp
      next
        case False
        with k have "i + 1 \<le> k \<and> k < numNode" by simp
        with ih2 show ?thesis by blast
      qed
    qed
    from A B show ?thesis by blast
  qed
qed

subsection \<open>Lists of owned sectors\<close>

lemma distinct_concat_map_inner:
  "distinct (concat (map g ks)) \<Longrightarrow> k \<in> set ks \<Longrightarrow> distinct (g k)"
  by (induction ks) auto

lemma distinct_concat_map_disjoint:
  "distinct (concat (map g ks)) \<Longrightarrow> k \<in> set ks \<Longrightarrow> k' \<in> set ks \<Longrightarrow> k \<noteq> k'
     \<Longrightarrow> x \<in> set (g k) \<Longrightarrow> y \<in> set (g k') \<Longrightarrow> x \<noteq> y"
  by (induction ks) auto

lemma ownedNodes_entry:
  assumes "i \<le> k" "k < numNode" "0 \<le> j" "j < entriesOf cfg nSectors numNode k"
  shows "the (dsk (arr k) j) \<in> set (ownedNode cfg nSectors numNode arr dsk k)"
    and "set (ownedNode cfg nSectors numNode arr dsk k)
           \<subseteq> set (ownedNodes cfg nSectors numNode arr dsk i)"
  using assms by (auto simp: ownedNode_def ownedNodes_def)

lemma ownedNodes_entries_distinct:
  assumes d: "distinct (ownedNodes cfg nSectors numNode arr dsk i)"
    and k: "i \<le> k" "k < numNode" "0 \<le> j" "j < entriesOf cfg nSectors numNode k"
    and k': "i \<le> k'" "k' < numNode" "0 \<le> j'" "j' < entriesOf cfg nSectors numNode k'"
    and ne: "k \<noteq> k' \<or> j \<noteq> j'"
  shows "the (dsk (arr k) j) \<noteq> the (dsk (arr k') j')"
proof (cases "k = k'")
  case True
  from k have "k \<in> set [i..numNode - 1]" by simp
  from distinct_concat_map_inner[OF d[unfolded ownedNodes_def] this]
  have "distinct (map (\<lambda>j. the (dsk (arr k) j)) [0..entriesOf cfg nSectors numNode k - 1])"
    by (simp add: ownedNode_def)
  then have "inj_on (\<lambda>j. the (dsk (arr k) j)) {0..entriesOf cfg nSectors numNode k - 1}"
    by (simp add: distinct_map)
  moreover have "j \<in> {0..entriesOf cfg nSectors numNode k - 1}"
    "j' \<in> {0..entriesOf cfg nSectors numNode k - 1}"
    using k k' True by simp_all
  moreover from ne True have "j \<noteq> j'" by simp
  ultimately show ?thesis
    using True by (auto dest: inj_onD)
next
  case False
  have m: "k \<in> set [i..numNode - 1]" "k' \<in> set [i..numNode - 1]"
    using k k' by simp_all
  show ?thesis
    by (rule distinct_concat_map_disjoint[OF d[unfolded ownedNodes_def] m False
          ownedNodes_entry(1)[OF k] ownedNodes_entry(1)[OF k']])
qed

subsection \<open>Allocate\<close>

lemma Allocate_fields:
  assumes "Allocate cfg h bm dsk fileSize = Inr (ok, h', bm', dsk')"
  shows "numBytes h' = fileSize"
    and "numSectors h' = divRoundUp fileSize (SectorSize cfg)"
    and "useIndex h' \<longleftrightarrow> NumFirst cfg < numSectors h'"
    and "ok \<longleftrightarrow> sectorsNeeded cfg fileSize \<le> NumClear bm"
  using assms
  by (auto simp: Allocate_def AllocateWithIndex_def sectorsNeeded_def Let_def
      split: if_splits sum.splits)

lemma Allocate_direct:
  assumes "Allocate cfg h bm dsk fileSize = Inr (True, h', bm', dsk')"
    and "\<not> NumFirst cfg < divRoundUp fileSize (SectorSize cfg)"
  shows "drawn bm bm' (map (dataSectors h') [0..numSectors h' - 1])"
    and "dsk' = dsk"
proof -
  define n where "n = divRoundUp fileSize (SectorSize cfg)"
  from assms obtain arr
    where F: "fillSlots cfg 0 n (dataSectors h, bm) = Inr (arr, bm')"
      and h': "dataSectors h' = arr" "numSectors h' = n" and d: "dsk' = dsk"
      and enough: "n \<le> NumClear bm"
    by (auto simp: Allocate_def Let_def n_def split: if_splits sum.splits)
  from fillSlots_Inr[OF F] enough
  show "drawn bm bm' (map (dataSectors h') [0..numSectors h' - 1])"
    by (simp add: h')
  show "dsk' = dsk" by (rule d)
qed

lemma Allocate_indexed:
  assumes A: "Allocate cfg h bm dsk fileSize = Inr (True, h', bm', dsk')"
    and big: "NumFirst cfg < divRoundUp fileSize (SectorSize cfg)"
    and ns: "0 < NumSecond cfg" and nf: "0 \<le> NumFirst cfg"
  shows "drawn bm bm' (ownedNodes cfg (numSectors h') (divRoundUp (numSectors h') (NumSecond cfg))
            (dataSectors h') dsk' 0)"
    and "divRoundUp (numSectors h') (NumSecond cfg) \<le> NumFirst cfg"
    and "\<forall>k. 0 \<le> k \<and> k < divRoundUp (numSectors h') (NumSecond cfg) \<longrightarrow>
           (\<forall>j. 0 \<le> j \<and> j < entriesOf cfg (numSectors h') (divRoundUp (numSectors h') (NumSecond cfg)) k
              \<longrightarrow> dsk' (dataSectors h' k) j \<noteq> None)"
proof -
  define n where "n = divRoundUp fileSize (SectorSize cfg)"
  define numNode where "numNode = divRoundUp n (NumSecond cfg)"
  from A big obtain arr
    where F: "allocNodes cfg n numNode 0 (dataSectors h, bm, dsk) = Inr (arr, bm', dsk')"
      and h': "dataSectors h' = arr" "numSectors h' = n"
      and enough: "n + numNode \<le> NumClear bm"
    by (auto simp: Allocate_def AllocateWithIndex_def Let_def n_def numNode_def
        split: if_splits sum.splits)
  from big nf have "0 < n" by (simp add: n_def)
  then have pos: "0 < numNode"
    by (simp add: numNode_def divRoundUp_pos_iff[OF ns])
  have tl: "NumSecond cfg * (numNode - 1) \<le> n"
    using divRoundUp_bounds(2)[OF ns, of n] by (simp add: numNode_def)
  from allocNodes_Inr[OF F ns tl] pos enough
  have 1: "numNode \<le> NumFirst cfg"
    and 2: "drawn bm bm' (ownedNodes cfg n numNode arr dsk' 0)"
    and 3: "\<forall>k. 0 \<le> k \<and> k < numNode \<longrightarrow>
           (\<forall>j. 0 \<le> j \<and> j < entriesOf cfg n numNode k \<longrightarrow> dsk' (arr k) j \<noteq> None)"
    by simp_all
  from 2 show "drawn bm bm' (ownedNodes cfg (numSectors h')
      (divRoundUp (numSectors h') (NumSecond cfg)) (dataSectors h') dsk' 0)"
    by (simp add: h' numNode_def)
  from 1 show "divRoundUp (numSectors h') (NumSecond cfg) \<le> NumFirst cfg"
    by (simp add: h' numNode_def)
  from 3 show "\<forall>k. 0 \<le> k \<and> k < divRoundUp (numSectors h') (NumSecond cfg) \<longrightarrow>
           (\<forall>j. 0 \<le> j \<and> j < entriesOf cfg (numSectors h') (divRoundUp (numSectors h') (NumSecond cfg)) k
              \<longrightarrow> dsk' (dataSectors h' k) j \<noteq> None)"
    by (simp add: h' numNode_def)
qed

lemma Allocate_drawn:
  assumes "Allocate cfg h bm dsk fileSize = Inr (True, h', bm', dsk')" and "validConfig cfg"
  shows "drawn bm bm' (owned cfg h' dsk')"
proof (cases "NumFirst cfg < divRoundUp fileSize (SectorSize cfg)")
  case True
  from assms(2) have "0 < NumSecond cfg" "0 \<le> NumFirst cfg" by (simp_all add: validConfig_def)
  from Allocate_indexed(1)[OF assms(1) True this] Allocate_fields(2,3)[OF assms(1)] True
  show ?thesis by (simp add: owned_def)
next
  case False
  from Allocate_direct(1)[OF assms(1) False] Allocate_fields(2,3)[OF assms(1)] False
  show ?thesis by (simp add: owned_def)
qed

lemma entriesOf_le:
  assumes "0 < NumSecond cfg" 
  shows "entriesOf cfg n (divRoundUp n (NumSecond cfg)) k \<le> NumSecond cfg"
  using divRoundUp_bounds(1)[OF assms, of n] by (simp add: entriesOf_def algebra_simps)

lemma Allocate_ok:
  assumes "validConfig cfg" and "fileSize \<le> NumFirst cfg * NumSecond cfg * SectorSize cfg"
  shows "\<exists>r. Allocate cfg h bm dsk fileSize = Inr r"
proof -
  from assms(1) have ss: "0 < SectorSize cfg" and ns: "0 < NumSecond cfg" and nf: "0 < NumFirst cfg"
    by (simp_all add: validConfig_def)
  define n where "n = divRoundUp fileSize (SectorSize cfg)"
  define numNode where "numNode = divRoundUp n (NumSecond cfg)"
  show ?thesis
  proof (cases "NumFirst cfg < n")
    case True
    from assms(2) have "n \<le> NumSecond cfg * NumFirst cfg"
      by (simp add: n_def divRoundUp_le_iff[OF ss] mult.commute mult.left_commute)
    then have nn: "numNode \<le> NumFirst cfg"
      by (simp add: numNode_def divRoundUp_le_iff[OF ns])
    have "n - NumSecond cfg * (numNode - 1) \<le> NumSecond cfg"
      using entriesOf_le[OF ns, of n "numNode - 1"] by (simp add: entriesOf_def numNode_def)
    from allocNodes_ok[OF _ nn this, of 0 "(dataSectors h, bm, dsk)"]
    obtain r where "allocNodes cfg n numNode 0 (dataSectors h, bm, dsk) = Inr r"
      by auto
    with True show ?thesis
      by (cases r) (auto simp: Allocate_def AllocateWithIndex_def Let_def n_def[symmetric]
          numNode_def[symmetric])
  next
    case False
    then have "0 < n \<longrightarrow> 0 \<le> (0::int) \<and> n \<le> NumFirst cfg" by simp
    from fillSlots_ok[OF this]
    obtain r where "fillSlots cfg 0 n (dataSectors h, bm) = Inr r" by blast
    with False show ?thesis
      by (cases r) (auto simp: Allocate_def Let_def n_def[symmetric])
  qed
qed

subsection \<open>Deallocate\<close>

lemma Deallocate_freeList:
  assumes "Deallocate cfg h bm dsk = Inr bm'"
  shows "Deallocate cfg h c dsk = freeList c (owned cfg h dsk)"
proof (cases "useIndex h")
  case True
  with assms have "freeNodes cfg (numSectors h) (divRoundUp (numSectors h) (NumSecond cfg)) 0
      (dataSectors h) dsk bm = Inr bm'"
    by (simp add: Deallocate_def DeallocateWithIndex_def)
  from freeNodes_Inr[OF this]
  have "freeNodes cfg (numSectors h) (divRoundUp (numSectors h) (NumSecond cfg)) 0
      (dataSectors h) dsk c
    = freeList c (ownedNodes cfg (numSectors h) (divRoundUp (numSectors h) (NumSecond cfg))
        (dataSectors h) dsk 0)"
    by (intro freeNodes_freeList) simp_all
  with True show ?thesis
    by (simp add: Deallocate_def DeallocateWithIndex_def owned_def)
next
  case False
  with assms have "freeSlots cfg 0 (numSectors h) (dataSectors h) bm = Inr bm'"
    by (simp add: Deallocate_def)
  from freeSlots_Inr[OF this]
  have "freeSlots cfg 0 (numSectors h) (dataSectors h) c
      = freeList c (map (dataSectors h) [0..numSectors h - 1])"
    by (intro freeSlots_freeList) simp
  with False show ?thesis
    by (simp add: Deallocate_def owned_def)
qed

lemma Deallocate_allocated:
  assumes A: "Allocate cfg h bm dsk fileSize = Inr (True, h', bm', dsk')" and vc: "validConfig cfg"
  shows "Deallocate cfg h' c dsk' = freeList c (owned cfg h' dsk')"
proof (cases "NumFirst cfg < divRoundUp fileSize (SectorSize cfg)")
  case True
  from vc have ns: "0 < NumSecond cfg" and nf: "0 \<le> NumFirst cfg" by (simp_all add: validConfig_def)
  note f = Allocate_fields[OF A]
  from True f have ui: "useIndex h'" by simp
  note ix = Allocate_indexed[OF A True ns nf]
  have "freeNodes cfg (numSectors h') (divRoundUp (numSectors h') (NumSecond cfg)) 0
      (dataSectors h') dsk' c
    = freeList c (ownedNodes cfg (numSectors h') (divRoundUp (numSectors h') (NumSecond cfg))
        (dataSectors h') dsk' 0)"
    using ix(2,3) entriesOf_le[OF ns] by (intro freeNodes_freeList) simp_all
  with ui show ?thesis
    by (simp add: Deallocate_def DeallocateWithIndex_def owned_def)
next
  case False
  note f = Allocate_fields[OF A]
  from False f have ui: "\<not> useIndex h'" and le: "numSectors h' \<le> NumFirst cfg" by simp_all
  from le have "freeSlots cfg 0 (numSectors h') (dataSectors h') c
      = freeList c (map (dataSectors h') [0..numSectors h' - 1])"
    by (intro freeSlots_freeList) simp
  with ui show ?thesis
    by (simp add: Deallocate_def owned_def)
qed

subsection \<open>addLength: the fields of the header\<close>

lemma migrate_Inr:
  "migrate cfg h old bm dsk = Inr (h2, bm2, dsk2) \<Longrightarrow>
     numBytes h2 = numBytes h \<and> numSectors h2 = numSectors h \<and> useIndex h2"
  by (auto simp: migrate_def split: prod.splits sum.splits)

lemma growIndexed_Inr:
  "growIndexed cfg h old bm dsk = Inr (ok, h', bm', dsk') \<Longrightarrow>
     ok \<and> numBytes h' = numBytes h \<and> numSectors h' = numSectors h \<and> useIndex h' = useIndex h"
  by (auto simp: growIndexed_def Let_def split: prod.splits sum.splits)

lemma addLength_fields:
  assumes "addLength cfg h bm dsk addBytes = Inr (ok, h', bm', dsk')"
  shows "ok" and "numBytes h' = numBytes h + addBytes"
    and "numSectors h' = divRoundUp (numBytes h + addBytes) (SectorSize cfg)"
    and "useIndex h' =
      (if numSectors h' = numSectors h \<or> numSectors h' \<le> NumFirst cfg then useIndex h else True)"
proof -
  define n where "n = divRoundUp (numBytes h + addBytes) (SectorSize cfg)"
  define h1 where "h1 = h\<lparr>numBytes := numBytes h + addBytes, numSectors := n\<rparr>"
  have "ok \<and> numBytes h' = numBytes h + addBytes \<and> numSectors h' = n \<and>
     useIndex h' = (if n = numSectors h \<or> n \<le> NumFirst cfg then useIndex h else True)"
  proof (cases "n = numSectors h")
    case True
    with assms show ?thesis
      by (auto simp: addLength_def Let_def n_def)
  next
    case ne: False
    show ?thesis
    proof (cases "n \<le> NumFirst cfg")
      case True
      with ne assms show ?thesis
        by (auto simp: addLength_def Let_def n_def split: sum.splits)
    next
      case False
      with ne assms obtain h2 bm2 dsk2
        where M: "(if \<not> useIndex h then migrate cfg h1 (numSectors h) bm dsk else Inr (h1, bm, dsk))
                    = Inr (h2, bm2, dsk2)"
          and G: "growIndexed cfg h2 (numSectors h) bm2 dsk2 = Inr (ok, h', bm', dsk')"
        by (auto simp: addLength_def Let_def n_def h1_def split: sum.splits if_splits)
      from M have "numBytes h2 = numBytes h1 \<and> numSectors h2 = numSectors h1 \<and> useIndex h2"
        by (cases "useIndex h") (auto dest: migrate_Inr simp: h1_def)
      with growIndexed_Inr[OF G] ne False show ?thesis
        by (simp add: h1_def)
    qed
  qed
  then show "ok" and "numBytes h' = numBytes h + addBytes"
    and "numSectors h' = divRoundUp (numBytes h + addBytes) (SectorSize cfg)"
    and "useIndex h' =
      (if numSectors h' = numSectors h \<or> numSectors h' \<le> NumFirst cfg then useIndex h else True)"
    by (simp_all add: n_def)
qed

lemma addLength_direct:
  assumes "addLength cfg h bm dsk addBytes = Inr (ok, h', bm', dsk')"
    and "divRoundUp (numBytes h + addBytes) (SectorSize cfg) \<le> NumFirst cfg"
  shows "dsk' = dsk"
    and "\<forall>i. \<not> (numSectors h \<le> i \<and> i < numSectors h') \<longrightarrow> dataSectors h' i = dataSectors h i"
proof -
  define n where "n = divRoundUp (numBytes h + addBytes) (SectorSize cfg)"
  have "dsk' = dsk \<and>
    (\<forall>i. \<not> (numSectors h \<le> i \<and> i < n) \<longrightarrow> dataSectors h' i = dataSectors h i)"
  proof (cases "n = numSectors h")
    case True
    with assms(1) show ?thesis
      by (auto simp: addLength_def Let_def n_def)
  next
    case False
    with assms obtain arr
      where F: "fillSlots cfg (numSectors h) n (dataSectors h, bm) = Inr (arr, bm')"
        and h': "dataSectors h' = arr" and d: "dsk' = dsk"
      by (auto simp: addLength_def Let_def n_def split: sum.splits)
    from fillSlots_Inr[OF F] h' d show ?thesis
      by auto
  qed
  with addLength_fields(3)[OF assms(1)]
  show "dsk' = dsk"
    and "\<forall>i. \<not> (numSectors h \<le> i \<and> i < numSectors h') \<longrightarrow> dataSectors h' i = dataSectors h i"
    by (simp_all add: n_def)
qed

subsection \<open>Evaluation of the concrete files\<close>

lemmas eval_defs = Allocate_def AllocateWithIndex_def Let_def divRoundUp_def tinyConfig_def
  specConfig_def emptyHeader_def blankDisk_def newNode_def NumClear_def Find_def Mark_def Clear_def
  Test_def NoSector_def setSlot_def getSlot_def setEntry_def getEntry_def entriesOf_def
  fillSlots.simps fillEntries.simps allocNodes.simps freeSlots.simps freeEntries.simps
  freeNodes.simps copySlots.simps Deallocate_def DeallocateWithIndex_def freeSector_def
  ByteToSector_def ByteToSectorWithIndex_def cdiv_def cmod_def addLength_def migrate_def
  growIndexed_def fillTail_def validConfig_def sectorsNeeded_def
  freeMap8_def file2_def map2_def file3_def map3_def file7_def map7_def disk7_def
  file3grown_def disk3grown_def file128_def fullMap4_def

lemma validConfig_tiny: "validConfig tinyConfig"
  by (simp add: validConfig_def tinyConfig_def)

lemma Allocate_2: "Allocate tinyConfig emptyHeader freeMap8 blankDisk 2 = Inr (True, file2, map2, blankDisk)"
  by (simp add: eval_defs)

lemma Allocate_3: "Allocate tinyConfig emptyHeader freeMap8 blankDisk 3 = Inr (True, file3, map3, blankDisk)"
  by (simp add: eval_defs)

lemma Allocate_7: "Allocate tinyConfig emptyHeader freeMap8 blankDisk 7 = Inr (True, file7, map7, disk7)"
  by (simp add: eval_defs)

lemma addLength_3_4: "addLength tinyConfig file3 map3 blankDisk 4 = Inr (True, file3grown, map7, disk3grown)"
  by (simp add: eval_defs)

lemma addLength_2_1:
  "addLength tinyConfig file2 map2 blankDisk 1 = Inr (True, file3, map3, blankDisk)"
  by (simp add: eval_defs)

section \<open>Conservation of free sectors\<close>

text \<open>
  Claim C5.  Whenever \<open>Allocate\<close> succeeds, for any requested size, \<open>Deallocate\<close> on the header,
  bitmap and disk it returns completes, and the number of clear bits is again what it was
  before \<open>Allocate\<close>.
\<close>

theorem deallocate_restores_count:
  assumes "validConfig cfg"
    and "Allocate cfg h bm dsk fileSize = Inr (True, h', bm', dsk')"
  shows "\<exists>bm''. Deallocate cfg h' bm' dsk' = Inr bm'' \<and> NumClear bm'' = NumClear bm"
proof -
  from freeList_drawn[OF Allocate_drawn[OF assms(2,1)]]
  obtain bm'' where "freeList bm' (owned cfg h' dsk') = Inr bm''" "NumClear bm'' = NumClear bm"
    by blast
  with Deallocate_allocated[OF assms(2,1), of bm'] show ?thesis
    by simp
qed

theorem deallocate_restores_count_witness:
  "validConfig tinyConfig \<and>
   Allocate tinyConfig emptyHeader freeMap8 blankDisk 7 = Inr (True, file7, map7, disk7) \<and>
   (\<exists>bm''. Deallocate tinyConfig file7 map7 disk7 = Inr bm'' \<and> NumClear bm'' = NumClear freeMap8)"
  using deallocate_restores_count[OF validConfig_tiny Allocate_7] validConfig_tiny Allocate_7
  by simp

section \<open>The sector count\<close>

text \<open>
  Claim C9.  After \<open>Allocate\<close> and after \<open>addLength\<close> have returned, the header's \<open>numSectors\<close>
  is the ceiling of \<open>numBytes / SectorSize\<close>.  \<open>Deallocate\<close> takes the header by value in the
  model, as the source never assigns a header field there: it leaves both fields as they are.
\<close>

theorem numSectors_is_ceiling:
  assumes "0 < SectorSize cfg"
  shows "(Allocate cfg h bm dsk fileSize = Inr (ok, h', bm', dsk') \<longrightarrow>
            numSectors h' = \<lceil>real_of_int (numBytes h') / real_of_int (SectorSize cfg)\<rceil>) \<and>
         (addLength cfg g bm dsk addBytes = Inr (ok2, g', bm2, dsk2) \<longrightarrow>
            numSectors g' = \<lceil>real_of_int (numBytes g') / real_of_int (SectorSize cfg)\<rceil>)"
proof (intro conjI impI)
  assume "Allocate cfg h bm dsk fileSize = Inr (ok, h', bm', dsk')"
  from Allocate_fields(1,2)[OF this]
  show "numSectors h' = \<lceil>real_of_int (numBytes h') / real_of_int (SectorSize cfg)\<rceil>"
    by (simp add: divRoundUp_ceiling[OF assms])
next
  assume "addLength cfg g bm dsk addBytes = Inr (ok2, g', bm2, dsk2)"
  from addLength_fields(2,3)[OF this]
  show "numSectors g' = \<lceil>real_of_int (numBytes g') / real_of_int (SectorSize cfg)\<rceil>"
    by (simp add: divRoundUp_ceiling[OF assms])
qed

theorem numSectors_is_ceiling_witness:
  "0 < SectorSize tinyConfig \<and>
   Allocate tinyConfig emptyHeader freeMap8 blankDisk 3 = Inr (True, file3, map3, blankDisk) \<and>
   numSectors file3 = \<lceil>real_of_int (numBytes file3) / real_of_int (SectorSize tinyConfig)\<rceil> \<and>
   addLength tinyConfig file3 map3 blankDisk 4 = Inr (True, file3grown, map7, disk3grown) \<and>
   numSectors file3grown = \<lceil>real_of_int (numBytes file3grown) / real_of_int (SectorSize tinyConfig)\<rceil>"
proof -
  have s: "0 < SectorSize tinyConfig" by (simp add: tinyConfig_def)
  have A: "Allocate tinyConfig emptyHeader freeMap8 blankDisk 3 = Inr (True, file3, map3, blankDisk)"
    by (rule Allocate_3)
  have G: "addLength tinyConfig file3 map3 blankDisk 4 = Inr (True, file3grown, map7, disk3grown)"
    by (rule addLength_3_4)
  from numSectors_is_ceiling[OF s, of emptyHeader freeMap8 blankDisk 3 True file3 map3 blankDisk
      file3 4 True file3grown map7 disk3grown] A
  have 1: "numSectors file3 = \<lceil>real_of_int (numBytes file3) / real_of_int (SectorSize tinyConfig)\<rceil>"
    by blast
  from numSectors_is_ceiling[OF s, of emptyHeader map3 blankDisk 3 True file3 map3 blankDisk
      file3 4 True file3grown map7 disk3grown] G
  have 2: "numSectors file3grown
      = \<lceil>real_of_int (numBytes file3grown) / real_of_int (SectorSize tinyConfig)\<rceil>"
    by blast
  from s A G 1 2 show ?thesis by blast
qed

section \<open>The layout flag\<close>

text \<open>
  Claim C10.  After \<open>Allocate\<close> has returned, \<open>useIndex\<close> is true exactly when \<open>numSectors\<close>
  exceeds \<open>NumFirst\<close>.  \<open>addLength\<close> keeps that: if the header it is given has the flag in
  agreement with its sector count, and its sector count derived from its size, then for every
  growth (\<open>addBytes\<close> not negative) the header it returns has them in agreement again.
\<close>

theorem useIndex_iff_beyond_NumFirst:
  "(Allocate cfg h bm dsk fileSize = Inr (ok, h', bm', dsk') \<longrightarrow>
      (useIndex h' \<longleftrightarrow> NumFirst cfg < numSectors h')) \<and>
   (0 < SectorSize cfg \<and> 0 \<le> addBytes \<and>
    (useIndex g \<longleftrightarrow> NumFirst cfg < numSectors g) \<and>
    numSectors g = divRoundUp (numBytes g) (SectorSize cfg) \<and>
    addLength cfg g bm dsk addBytes = Inr (ok2, g', bm2, dsk2) \<longrightarrow>
      (useIndex g' \<longleftrightarrow> NumFirst cfg < numSectors g'))"
proof (intro conjI impI)
  assume "Allocate cfg h bm dsk fileSize = Inr (ok, h', bm', dsk')"
  from Allocate_fields(3)[OF this] show "useIndex h' \<longleftrightarrow> NumFirst cfg < numSectors h'" .
next
  assume a: "0 < SectorSize cfg \<and> 0 \<le> addBytes \<and>
    (useIndex g \<longleftrightarrow> NumFirst cfg < numSectors g) \<and>
    numSectors g = divRoundUp (numBytes g) (SectorSize cfg) \<and>
    addLength cfg g bm dsk addBytes = Inr (ok2, g', bm2, dsk2)"
  then have A: "addLength cfg g bm dsk addBytes = Inr (ok2, g', bm2, dsk2)" by simp
  note f = addLength_fields(3,4)[OF A]
  from a have "numSectors g \<le> numSectors g'"
    by (simp add: f(1) divRoundUp_mono)
  with a f(2) show "useIndex g' \<longleftrightarrow> NumFirst cfg < numSectors g'"
    by (auto split: if_splits)
qed

theorem useIndex_iff_beyond_NumFirst_witness:
  "Allocate tinyConfig emptyHeader freeMap8 blankDisk 3 = Inr (True, file3, map3, blankDisk) \<and>
   (useIndex file3 \<longleftrightarrow> NumFirst tinyConfig < numSectors file3) \<and>
   0 < SectorSize tinyConfig \<and> (0::int) \<le> 4 \<and>
   numSectors file3 = divRoundUp (numBytes file3) (SectorSize tinyConfig) \<and>
   addLength tinyConfig file3 map3 blankDisk 4 = Inr (True, file3grown, map7, disk3grown) \<and>
   (useIndex file3grown \<longleftrightarrow> NumFirst tinyConfig < numSectors file3grown)"
proof -
  have A: "Allocate tinyConfig emptyHeader freeMap8 blankDisk 3 = Inr (True, file3, map3, blankDisk)"
    by (rule Allocate_3)
  have G: "addLength tinyConfig file3 map3 blankDisk 4 = Inr (True, file3grown, map7, disk3grown)"
    by (rule addLength_3_4)
  have s: "0 < SectorSize tinyConfig" "(0::int) \<le> 4"
    "numSectors file3 = divRoundUp (numBytes file3) (SectorSize tinyConfig)"
    by (simp_all add: tinyConfig_def file3_def divRoundUp_def)
  from useIndex_iff_beyond_NumFirst[of tinyConfig emptyHeader freeMap8 blankDisk 3 True file3 map3
      blankDisk 4 file3 True file3grown map7 disk3grown] A
  have 1: "useIndex file3 \<longleftrightarrow> NumFirst tinyConfig < numSectors file3"
    by blast
  from useIndex_iff_beyond_NumFirst[of tinyConfig emptyHeader map3 blankDisk 3 True file3 map3
      blankDisk 4 file3 True file3grown map7 disk3grown] 1 s G
  have 2: "useIndex file3grown \<longleftrightarrow> NumFirst tinyConfig < numSectors file3grown"
    by blast
  from A G s 1 2 show ?thesis by blast
qed

section \<open>Offsets\<close>

lemma int_div_less:
  fixes a b c :: int
  assumes "0 < b" and "a < c * b"
  shows "a div b < c"
proof (rule ccontr)
  assume "\<not> a div b < c"
  then have "c \<le> a div b" by simp
  with assms(1) have "c * b \<le> (a div b) * b" by (intro mult_right_mono) simp_all
  also have "\<dots> \<le> a"
  proof -
    have "(a div b) * b + a mod b = a" by simp
    moreover have "0 \<le> a mod b" using assms(1) by simp
    ultimately show ?thesis by linarith
  qed
  finally show False using assms(2) by simp
qed

lemma index_in_range:
  fixes a b n :: int
  assumes "0 < b" and "0 \<le> a" and "a < n * b"
  shows "0 \<le> a div b" and "a div b < n"
    and "0 \<le> a - (a div b) * b" and "a - (a div b) * b < b"
  using assms int_div_less[OF assms(1,3)]
  by (simp_all add: pos_imp_zdiv_nonneg_iff minus_div_mult_eq_mod)

lemma offset_sector:
  assumes "0 < s" and "0 \<le> off" and "off < n"
  shows "0 \<le> off div s" and "off div s < divRoundUp n s"
proof -
  from divRoundUp_bounds(1)[OF assms(1), of n] assms(3)
  have "off < divRoundUp n s * s" by (simp add: mult.commute)
  from index_in_range(1,2)[OF assms(1,2) this]
  show "0 \<le> off div s" and "off div s < divRoundUp n s" .
qed

text \<open>
  Claim C6.  For a header whose size is within the capacity of its layout, and an offset inside
  the file, \<open>ByteToSector\<close> returns \<open>dataSectors[offset / SectorSize]\<close> in direct mode; in
  indexed mode it returns entry \<open>whichSector - whichNode * NumSecond\<close> of the index node stored
  in sector \<open>dataSectors[whichNode]\<close>, where \<open>whichSector = offset / SectorSize\<close> and
  \<open>whichNode = whichSector / NumSecond\<close> (an entry that was never written has no determined
  value).
\<close>

theorem ByteToSector_value:
  assumes "validConfig cfg" and "0 \<le> offset" and "offset < numBytes h"
    and "numBytes h \<le> (if useIndex h then NumFirst cfg * NumSecond cfg else NumFirst cfg) * SectorSize cfg"
  shows "ByteToSector cfg h dsk offset =
    (if useIndex h
     then (let whichSector = offset div SectorSize cfg;
               whichNode = whichSector div NumSecond cfg
           in case dsk (dataSectors h whichNode) (whichSector - whichNode * NumSecond cfg) of
                None \<Rightarrow> Inl Indeterminate
              | Some s \<Rightarrow> Inr s)
     else Inr (dataSectors h (offset div SectorSize cfg)))"
proof -
  from assms(1) have ss: "0 < SectorSize cfg" and ns: "0 < NumSecond cfg"
    by (simp_all add: validConfig_def)
  note cd = cdiv_nonneg[OF assms(2) ss]
  show ?thesis
  proof (cases "useIndex h")
    case False
    with assms(3,4) have "offset < NumFirst cfg * SectorSize cfg" by simp
    from index_in_range(1,2)[OF ss assms(2) this] False show ?thesis
      by (simp add: ByteToSector_def getSlot_def cd)
  next
    case True
    define ws where "ws = offset div SectorSize cfg"
    define wn where "wn = ws div NumSecond cfg"
    from True assms(3,4) have "offset < (NumFirst cfg * NumSecond cfg) * SectorSize cfg" by simp
    from index_in_range(1,2)[OF ss assms(2) this]
    have ws: "0 \<le> ws" "ws < NumFirst cfg * NumSecond cfg" by (simp_all add: ws_def)
    from index_in_range[OF ns ws]
    have wn: "0 \<le> wn" "wn < NumFirst cfg"
      and e: "0 \<le> ws - wn * NumSecond cfg" "ws - wn * NumSecond cfg < NumSecond cfg"
      by (simp_all add: wn_def)
    have "cdiv ws (NumSecond cfg) = wn"
      by (simp add: cdiv_nonneg[OF ws(1) ns] wn_def)
    with True wn e show ?thesis
      by (simp add: ByteToSector_def ByteToSectorWithIndex_def Let_def cd getSlot_def getEntry_def
          ws_def[symmetric] wn_def[symmetric])
  qed
qed

theorem ByteToSector_value_witness:
  "validConfig tinyConfig \<and> (0::int) \<le> 5 \<and> 5 < numBytes file7 \<and>
   numBytes file7 \<le> (if useIndex file7 then NumFirst tinyConfig * NumSecond tinyConfig
                       else NumFirst tinyConfig) * SectorSize tinyConfig \<and>
   ByteToSector tinyConfig file7 disk7 5 = Inr 4 \<and>
   (0::int) \<le> 2 \<and> 2 < numBytes file3 \<and>
   numBytes file3 \<le> (if useIndex file3 then NumFirst tinyConfig * NumSecond tinyConfig
                       else NumFirst tinyConfig) * SectorSize tinyConfig \<and>
   ByteToSector tinyConfig file3 blankDisk 2 = Inr 1"
proof -
  have a: "(0::int) \<le> 5" "5 < numBytes file7"
    "numBytes file7 \<le> (if useIndex file7 then NumFirst tinyConfig * NumSecond tinyConfig
                       else NumFirst tinyConfig) * SectorSize tinyConfig"
    by (simp_all add: file7_def tinyConfig_def)
  have b: "(0::int) \<le> 2" "2 < numBytes file3"
    "numBytes file3 \<le> (if useIndex file3 then NumFirst tinyConfig * NumSecond tinyConfig
                       else NumFirst tinyConfig) * SectorSize tinyConfig"
    by (simp_all add: file3_def tinyConfig_def)
  have 1: "ByteToSector tinyConfig file7 disk7 5 = Inr 4"
    using ByteToSector_value[OF validConfig_tiny a, of disk7]
    by (simp add: file7_def disk7_def tinyConfig_def blankDisk_def newNode_def)
  have 2: "ByteToSector tinyConfig file3 blankDisk 2 = Inr 1"
    using ByteToSector_value[OF validConfig_tiny b, of blankDisk]
    by (simp add: file3_def tinyConfig_def)
  from validConfig_tiny a b 1 2 show ?thesis by blast
qed

section \<open>Growth of a direct file\<close>

text \<open>
  Claim C8.  When a direct file grows and its new sector count is still at most \<open>NumFirst\<close>,
  \<open>addLength\<close> writes only the slots from the old sector count up to the new one.  The file stays
  direct and no index node is written, so every offset below the old size is mapped to the
  sector it was mapped to before.
\<close>

theorem direct_growth_keeps_sectors:
  assumes "0 < SectorSize cfg"
    and "\<not> useIndex h"
    and "numSectors h = divRoundUp (numBytes h) (SectorSize cfg)"
    and "divRoundUp (numBytes h + addBytes) (SectorSize cfg) \<le> NumFirst cfg"
    and "addLength cfg h bm dsk addBytes = Inr (ok, h', bm', dsk')"
  shows "(\<forall>i. \<not> (numSectors h \<le> i \<and> i < numSectors h') \<longrightarrow> dataSectors h' i = dataSectors h i) \<and>
         \<not> useIndex h' \<and> dsk' = dsk \<and>
         (\<forall>offset. 0 \<le> offset \<and> offset < numBytes h \<longrightarrow>
            ByteToSector cfg h' dsk' offset = ByteToSector cfg h dsk offset)"
proof -
  note f = addLength_fields(3,4)[OF assms(5)]
  note d = addLength_direct[OF assms(5,4)]
  from f assms(2,4) have u: "\<not> useIndex h'" by simp
  have "ByteToSector cfg h' dsk' offset = ByteToSector cfg h dsk offset"
    if o: "0 \<le> offset \<and> offset < numBytes h" for offset
  proof -
    from o offset_sector(2)[OF assms(1), of offset "numBytes h"] assms(3)
    have "offset div SectorSize cfg < numSectors h" by simp
    with d(2) have "dataSectors h' (offset div SectorSize cfg) = dataSectors h (offset div SectorSize cfg)"
      by simp
    with u assms(2) o show ?thesis
      by (simp add: ByteToSector_def getSlot_def cdiv_nonneg[OF _ assms(1)])
  qed
  with d u show ?thesis by blast
qed

theorem direct_growth_keeps_sectors_witness:
  "0 < SectorSize tinyConfig \<and> \<not> useIndex file2 \<and>
   numSectors file2 = divRoundUp (numBytes file2) (SectorSize tinyConfig) \<and>
   divRoundUp (numBytes file2 + 1) (SectorSize tinyConfig) \<le> NumFirst tinyConfig \<and>
   addLength tinyConfig file2 map2 blankDisk 1 = Inr (True, file3, map3, blankDisk) \<and>
   \<not> (numSectors file2 \<le> 0 \<and> 0 < numSectors file3) \<and>
   dataSectors file3 0 = dataSectors file2 0 \<and>
   \<not> useIndex file3 \<and>
   (0::int) \<le> 1 \<and> 1 < numBytes file2 \<and>
   ByteToSector tinyConfig file3 blankDisk 1 = ByteToSector tinyConfig file2 blankDisk 1"
proof -
  have a: "0 < SectorSize tinyConfig" "\<not> useIndex file2"
    "numSectors file2 = divRoundUp (numBytes file2) (SectorSize tinyConfig)"
    "divRoundUp (numBytes file2 + 1) (SectorSize tinyConfig) \<le> NumFirst tinyConfig"
    by (simp_all add: file2_def tinyConfig_def divRoundUp_def)
  have b: "\<not> (numSectors file2 \<le> 0 \<and> 0 < numSectors file3)" "(0::int) \<le> 1" "1 < numBytes file2"
    by (simp_all add: file2_def file3_def)
  from direct_growth_keeps_sectors[OF a addLength_2_1]
  have 1: "\<forall>i. \<not> (numSectors file2 \<le> i \<and> i < numSectors file3) \<longrightarrow>
        dataSectors file3 i = dataSectors file2 i"
    and 2: "\<not> useIndex file3"
    and 3: "\<forall>offset. 0 \<le> offset \<and> offset < numBytes file2 \<longrightarrow>
        ByteToSector tinyConfig file3 blankDisk offset = ByteToSector tinyConfig file2 blankDisk offset"
    by blast+
  from 1 b have 4: "dataSectors file3 0 = dataSectors file2 0" by blast
  from 3 b have 5: "ByteToSector tinyConfig file3 blankDisk 1 = ByteToSector tinyConfig file2 blankDisk 1"
    by blast
  from a b addLength_2_1 2 4 5 show ?thesis by blast
qed

section \<open>Growth on a full disk\<close>

text \<open>
  Claim C2 asks \<open>addLength\<close> to fail when the bitmap cannot satisfy a draw.  The source has no
  such check: \<open>addLength\<close> has no \<open>return false\<close>.  Here a file of one sector grows by one
  sector on a disk without a free sector: \<open>Find\<close> has nothing to hand out, \<open>addLength\<close> stores
  \<open>NoSector\<close> in slot 1 and returns \<open>true\<close>.
\<close>

theorem addLength_on_full_disk:
  "NumClear fullMap4 = 0 \<and>
   addLength specConfig file128 fullMap4 blankDisk 128
     = Inr (True,
            file128\<lparr>numBytes := 256, numSectors := 2,
                    dataSectors := (dataSectors file128)(1 := NoSector)\<rparr>,
            fullMap4, blankDisk)"
  by (simp add: eval_defs)

section \<open>Allocation and translation\<close>

lemma Allocate_ByteToSector_direct:
  assumes A: "Allocate cfg h bm dsk fileSize = Inr (True, h', bm', dsk')"
    and small: "\<not> NumFirst cfg < divRoundUp fileSize (SectorSize cfg)"
    and ss: "0 < SectorSize cfg"
    and off: "0 \<le> offset" "offset < fileSize"
  shows "ByteToSector cfg h' dsk' offset = Inr (dataSectors h' (offset div SectorSize cfg))"
    and "dataSectors h' (offset div SectorSize cfg) \<in> set (owned cfg h' dsk')"
proof -
  note f = Allocate_fields[OF A]
  from f small have u: "\<not> useIndex h'" and le: "numSectors h' \<le> NumFirst cfg" by simp_all
  from offset_sector[OF ss off] f(2)
  have q: "0 \<le> offset div SectorSize cfg" "offset div SectorSize cfg < numSectors h'" by simp_all
  with u le off show "ByteToSector cfg h' dsk' offset = Inr (dataSectors h' (offset div SectorSize cfg))"
    by (simp add: ByteToSector_def getSlot_def cdiv_nonneg[OF _ ss])
  from q u show "dataSectors h' (offset div SectorSize cfg) \<in> set (owned cfg h' dsk')"
    by (simp add: owned_def)
qed

text \<open>Where logical sector \<open>q\<close> of an indexed file lives: node \<open>q / NumSecond\<close>, entry \<open>q mod NumSecond\<close>.\<close>

lemma node_entry_in_range:
  assumes ns: "0 < NumSecond cfg" and q: "0 \<le> q" "q < n"
  shows "0 \<le> q div NumSecond cfg" and "q div NumSecond cfg < divRoundUp n (NumSecond cfg)"
    and "0 \<le> q - (q div NumSecond cfg) * NumSecond cfg"
    and "q - (q div NumSecond cfg) * NumSecond cfg < NumSecond cfg"
    and "q - (q div NumSecond cfg) * NumSecond cfg
           < entriesOf cfg n (divRoundUp n (NumSecond cfg)) (q div NumSecond cfg)"
proof -
  define N where "N = divRoundUp n (NumSecond cfg)"
  define k where "k = q div NumSecond cfg"
  from offset_sector[OF ns q] have k: "0 \<le> k" "k < N" by (simp_all add: k_def N_def)
  have m: "q - k * NumSecond cfg = q mod NumSecond cfg"
    by (simp add: k_def minus_div_mult_eq_mod)
  from ns have j: "0 \<le> q - k * NumSecond cfg" "q - k * NumSecond cfg < NumSecond cfg"
    by (simp_all add: m)
  have "q - k * NumSecond cfg < entriesOf cfg n N k"
  proof (cases "k < N - 1")
    case True
    with j show ?thesis by (simp add: entriesOf_def)
  next
    case False
    with k have "k = N - 1" by simp
    with q show ?thesis by (simp add: entriesOf_def mult.commute)
  qed
  with k j show "0 \<le> q div NumSecond cfg" and "q div NumSecond cfg < divRoundUp n (NumSecond cfg)"
    and "0 \<le> q - (q div NumSecond cfg) * NumSecond cfg"
    and "q - (q div NumSecond cfg) * NumSecond cfg < NumSecond cfg"
    and "q - (q div NumSecond cfg) * NumSecond cfg
           < entriesOf cfg n (divRoundUp n (NumSecond cfg)) (q div NumSecond cfg)"
    by (simp_all add: k_def N_def)
qed

lemma Allocate_ByteToSector_indexed:
  assumes A: "Allocate cfg h bm dsk fileSize = Inr (True, h', bm', dsk')"
    and big: "NumFirst cfg < divRoundUp fileSize (SectorSize cfg)"
    and vc: "validConfig cfg"
    and off: "0 \<le> offset" "offset < fileSize"
  shows "ByteToSector cfg h' dsk' offset =
      Inr (the (dsk' (dataSectors h' (offset div SectorSize cfg div NumSecond cfg))
             (offset div SectorSize cfg
                - (offset div SectorSize cfg div NumSecond cfg) * NumSecond cfg)))"
proof -
  from vc have ss: "0 < SectorSize cfg" and ns: "0 < NumSecond cfg" and nf: "0 \<le> NumFirst cfg"
    by (simp_all add: validConfig_def)
  note f = Allocate_fields[OF A]
  note ix = Allocate_indexed[OF A big ns nf]
  define q where "q = offset div SectorSize cfg"
  define k where "k = q div NumSecond cfg"
  from f big have u: "useIndex h'" by simp
  from offset_sector[OF ss off] f(2) have q: "0 \<le> q" "q < numSectors h'" by (simp_all add: q_def)
  note r = node_entry_in_range[OF ns q, folded k_def]
  from r(1,2) ix(2) have k: "0 \<le> k" "k < NumFirst cfg" by simp_all
  from ix(3) r have "dsk' (dataSectors h' k) (q - k * NumSecond cfg) \<noteq> None" by simp
  then obtain s where s: "dsk' (dataSectors h' k) (q - k * NumSecond cfg) = Some s" by auto
  have "cdiv offset (SectorSize cfg) = q"
    by (simp add: cdiv_nonneg[OF off(1) ss] q_def)
  moreover have "cdiv q (NumSecond cfg) = k"
    by (simp add: cdiv_nonneg[OF q(1) ns] k_def)
  ultimately have "ByteToSector cfg h' dsk' offset = Inr s"
    using u k r(3,4) s
    by (simp add: ByteToSector_def ByteToSectorWithIndex_def Let_def getSlot_def getEntry_def)
  with s show ?thesis by (simp add: q_def k_def)
qed

lemma div_mult_unique:
  fixes q q' b :: int
  assumes "q div b = q' div b" and "q - (q div b) * b = q' - (q' div b) * b"
  shows "q = q'"
  using assms by simp

lemma Allocate_ByteToSector:
  assumes A: "Allocate cfg h bm dsk fileSize = Inr (True, h', bm', dsk')"
    and vc: "validConfig cfg"
  shows "0 \<le> offset \<and> offset < fileSize \<longrightarrow>
           (\<exists>s. ByteToSector cfg h' dsk' offset = Inr s \<and> Test bm' s \<and> \<not> Test bm s)"
    and "0 \<le> o1 \<and> o1 < fileSize \<and> 0 \<le> o2 \<and> o2 < fileSize \<and>
         o1 div SectorSize cfg \<noteq> o2 div SectorSize cfg \<longrightarrow>
           ByteToSector cfg h' dsk' o1 \<noteq> ByteToSector cfg h' dsk' o2"
proof -
  from vc have ss: "0 < SectorSize cfg" and ns: "0 < NumSecond cfg" and nf: "0 \<le> NumFirst cfg"
    by (simp_all add: validConfig_def)
  note f = Allocate_fields[OF A]
  note dr = Allocate_drawn[OF A vc]
  show "0 \<le> offset \<and> offset < fileSize \<longrightarrow>
           (\<exists>s. ByteToSector cfg h' dsk' offset = Inr s \<and> Test bm' s \<and> \<not> Test bm s)"
  proof
    assume off: "0 \<le> offset \<and> offset < fileSize"
    show "\<exists>s. ByteToSector cfg h' dsk' offset = Inr s \<and> Test bm' s \<and> \<not> Test bm s"
    proof (cases "NumFirst cfg < divRoundUp fileSize (SectorSize cfg)")
      case False
      from Allocate_ByteToSector_direct[OF A False ss] off drawn_set[OF dr]
      show ?thesis by blast
    next
      case True
      from True f have u: "useIndex h'" by simp
      define q where "q = offset div SectorSize cfg"
      from offset_sector[OF ss, of offset fileSize] off f(2)
      have q: "0 \<le> q" "q < numSectors h'" by (simp_all add: q_def)
      note r = node_entry_in_range[OF ns q]
      from ownedNodes_entry[where dsk = "dsk'" and arr = "dataSectors h'", OF r(1,2,3,5)] u
      have "the (dsk' (dataSectors h' (q div NumSecond cfg)) (q - (q div NumSecond cfg) * NumSecond cfg))
          \<in> set (owned cfg h' dsk')"
        by (auto simp: owned_def)
      with Allocate_ByteToSector_indexed[OF A True vc, of offset] off drawn_set[OF dr]
      show ?thesis by (simp add: q_def)
    qed
  qed
  show "0 \<le> o1 \<and> o1 < fileSize \<and> 0 \<le> o2 \<and> o2 < fileSize \<and>
         o1 div SectorSize cfg \<noteq> o2 div SectorSize cfg \<longrightarrow>
           ByteToSector cfg h' dsk' o1 \<noteq> ByteToSector cfg h' dsk' o2"
  proof
    assume a: "0 \<le> o1 \<and> o1 < fileSize \<and> 0 \<le> o2 \<and> o2 < fileSize \<and>
         o1 div SectorSize cfg \<noteq> o2 div SectorSize cfg"
    define q1 where "q1 = o1 div SectorSize cfg"
    define q2 where "q2 = o2 div SectorSize cfg"
    from a have ne: "q1 \<noteq> q2" by (simp add: q1_def q2_def)
    from offset_sector[OF ss, of o1 fileSize] offset_sector[OF ss, of o2 fileSize] a f(2)
    have q: "0 \<le> q1" "q1 < numSectors h'" "0 \<le> q2" "q2 < numSectors h'"
      by (simp_all add: q1_def q2_def)
    from dr have dist: "distinct (owned cfg h' dsk')" by (simp add: drawn_def)
    show "ByteToSector cfg h' dsk' o1 \<noteq> ByteToSector cfg h' dsk' o2"
    proof (cases "NumFirst cfg < divRoundUp fileSize (SectorSize cfg)")
      case False
      from False f have u: "\<not> useIndex h'" by simp
      from dist u have "inj_on (dataSectors h') {0..numSectors h' - 1}"
        by (simp add: owned_def distinct_map)
      with q ne have "dataSectors h' q1 \<noteq> dataSectors h' q2"
        by (auto dest: inj_onD)
      with Allocate_ByteToSector_direct(1)[OF A False ss, of o1]
        Allocate_ByteToSector_direct(1)[OF A False ss, of o2] a
      show ?thesis by (simp add: q1_def q2_def)
    next
      case True
      from True f have u: "useIndex h'" by simp
      define N where "N = divRoundUp (numSectors h') (NumSecond cfg)"
      define k1 where "k1 = q1 div NumSecond cfg"
      define k2 where "k2 = q2 div NumSecond cfg"
      define j1 where "j1 = q1 - k1 * NumSecond cfg"
      define j2 where "j2 = q2 - k2 * NumSecond cfg"
      note r1 = node_entry_in_range[OF ns q(1,2), folded k1_def, folded j1_def N_def]
      note r2 = node_entry_in_range[OF ns q(3,4), folded k2_def, folded j2_def N_def]
      from dist u have d: "distinct (ownedNodes cfg (numSectors h') N (dataSectors h') dsk' 0)"
        by (simp add: owned_def N_def)
      have "k1 \<noteq> k2 \<or> j1 \<noteq> j2"
        using ne div_mult_unique[of q1 "NumSecond cfg" q2]
        by (auto simp: k1_def k2_def j1_def j2_def)
      from ownedNodes_entries_distinct[OF d r1(1,2,3,5) r2(1,2,3,5) this]
      have "the (dsk' (dataSectors h' k1) j1) \<noteq> the (dsk' (dataSectors h' k2) j2)" .
      with Allocate_ByteToSector_indexed[OF A True vc, of o1]
        Allocate_ByteToSector_indexed[OF A True vc, of o2] a
      show ?thesis
        by (simp add: q1_def[symmetric] q2_def[symmetric] k1_def[symmetric] k2_def[symmetric]
            j1_def[symmetric] j2_def[symmetric])
    qed
  qed
qed

text \<open>
  Claim C1.  For every size from 1 up to \<open>NumFirst * NumSecond * SectorSize\<close> and every bitmap,
  \<open>Allocate\<close> returns, and it returns \<open>true\<close> exactly when the bitmap has as many clear bits as
  the file needs: its data sectors in direct mode, its data sectors and its index nodes in
  indexed mode.  When it returns \<open>true\<close>, \<open>ByteToSector\<close> maps every offset of the file to a
  sector that is marked in the bitmap, and two offsets that lie in different sectors of the file
  (\<open>o1 / SectorSize \<noteq> o2 / SectorSize\<close>) are mapped to different disk sectors.
\<close>

theorem allocate_round_trip:
  assumes "validConfig cfg" and "1 \<le> fileSize"
    and "fileSize \<le> NumFirst cfg * NumSecond cfg * SectorSize cfg"
  shows "\<exists>ok h' bm' dsk'.
     Allocate cfg h bm dsk fileSize = Inr (ok, h', bm', dsk') \<and>
     (ok \<longleftrightarrow> sectorsNeeded cfg fileSize \<le> NumClear bm) \<and>
     (ok \<longrightarrow>
        (\<forall>offset. 0 \<le> offset \<and> offset < fileSize \<longrightarrow>
           (\<exists>s. ByteToSector cfg h' dsk' offset = Inr s \<and> Test bm' s)) \<and>
        (\<forall>o1 o2. 0 \<le> o1 \<and> o1 < fileSize \<and> 0 \<le> o2 \<and> o2 < fileSize \<and>
           o1 div SectorSize cfg \<noteq> o2 div SectorSize cfg \<longrightarrow>
           ByteToSector cfg h' dsk' o1 \<noteq> ByteToSector cfg h' dsk' o2))"
proof -
  from Allocate_ok[OF assms(1,3), of h bm dsk]
  obtain ok h' bm' dsk' where A: "Allocate cfg h bm dsk fileSize = Inr (ok, h', bm', dsk')"
    by (metis prod_cases4)
  have "(\<forall>offset. 0 \<le> offset \<and> offset < fileSize \<longrightarrow>
           (\<exists>s. ByteToSector cfg h' dsk' offset = Inr s \<and> Test bm' s)) \<and>
        (\<forall>o1 o2. 0 \<le> o1 \<and> o1 < fileSize \<and> 0 \<le> o2 \<and> o2 < fileSize \<and>
           o1 div SectorSize cfg \<noteq> o2 div SectorSize cfg \<longrightarrow>
           ByteToSector cfg h' dsk' o1 \<noteq> ByteToSector cfg h' dsk' o2)" if ok
  proof -
    from A that have A': "Allocate cfg h bm dsk fileSize = Inr (True, h', bm', dsk')" by simp
    from Allocate_ByteToSector[OF A' assms(1)] show ?thesis by blast
  qed
  with A Allocate_fields(4)[OF A] show ?thesis by blast
qed

theorem allocate_round_trip_witness:
  "validConfig tinyConfig \<and> (1::int) \<le> 7 \<and>
   7 \<le> NumFirst tinyConfig * NumSecond tinyConfig * SectorSize tinyConfig \<and>
   Allocate tinyConfig emptyHeader freeMap8 blankDisk 7 = Inr (True, file7, map7, disk7) \<and>
   sectorsNeeded tinyConfig 7 \<le> NumClear freeMap8 \<and>
   (\<exists>s. ByteToSector tinyConfig file7 disk7 6 = Inr s \<and> Test map7 s) \<and>
   1 div SectorSize tinyConfig \<noteq> 6 div SectorSize tinyConfig \<and>
   ByteToSector tinyConfig file7 disk7 1 \<noteq> ByteToSector tinyConfig file7 disk7 6"
proof -
  have a: "(1::int) \<le> 7" "7 \<le> NumFirst tinyConfig * NumSecond tinyConfig * SectorSize tinyConfig"
    by (simp_all add: tinyConfig_def)
  have d: "1 div SectorSize tinyConfig \<noteq> 6 div SectorSize tinyConfig"
    by (simp add: tinyConfig_def)
  from allocate_round_trip[OF validConfig_tiny a, of emptyHeader freeMap8 blankDisk]
  have n: "sectorsNeeded tinyConfig 7 \<le> NumClear freeMap8"
    and r: "\<forall>offset. 0 \<le> offset \<and> offset < 7 \<longrightarrow>
      (\<exists>s. ByteToSector tinyConfig file7 disk7 offset = Inr s \<and> Test map7 s)"
    and i: "\<forall>o1 o2. 0 \<le> o1 \<and> o1 < 7 \<and> 0 \<le> o2 \<and> o2 < 7 \<and>
      o1 div SectorSize tinyConfig \<noteq> o2 div SectorSize tinyConfig \<longrightarrow>
      ByteToSector tinyConfig file7 disk7 o1 \<noteq> ByteToSector tinyConfig file7 disk7 o2"
    by (auto simp: Allocate_7)
  from r have 1: "\<exists>s. ByteToSector tinyConfig file7 disk7 6 = Inr s \<and> Test map7 s"
    by simp
  from i d have 2: "ByteToSector tinyConfig file7 disk7 1 \<noteq> ByteToSector tinyConfig file7 disk7 6"
    by simp
  from validConfig_tiny a Allocate_7 n 1 d 2 show ?thesis by blast
qed

section \<open>Freeing twice\<close>

lemma owned_nonempty:
  assumes "0 < NumSecond cfg" and "1 \<le> numSectors h"
  shows "owned cfg h dsk \<noteq> []"
proof (cases "useIndex h")
  case True
  from assms have "0 < divRoundUp (numSectors h) (NumSecond cfg)"
    by (simp add: divRoundUp_pos_iff)
  from ownedNodes_rec[OF this] True show ?thesis
    by (simp add: owned_def ownedNode_def)
next
  case False
  with assms(2) show ?thesis
    by (simp add: owned_def upto_rec1)
qed

text \<open>
  Claim C4, as amended.  \<open>Deallocate\<close> frees the sectors the file owns one after the other, and
  halts at the first one that is not marked: when it completes, every sector the file owns was
  marked before and is clear afterwards, and the number of clear bits has grown by the number of
  these sectors.  A second \<open>Deallocate\<close> on the same header, right after one that completed,
  halts on a failed assertion, provided the file has at least one sector.
\<close>

theorem deallocate_asserts:
  assumes "Deallocate cfg h bm dsk = Inr bm'"
  shows "(\<forall>c. Deallocate cfg h c dsk = freeList c (owned cfg h dsk)) \<and>
         (\<forall>s\<in>set (owned cfg h dsk). Test bm s \<and> \<not> Test bm' s) \<and>
         NumClear bm' = NumClear bm + int (length (owned cfg h dsk)) \<and>
         (0 < NumSecond cfg \<and> 1 \<le> numSectors h \<longrightarrow>
            Deallocate cfg h bm' dsk = Inl AssertionFailed)"
proof -
  note D = Deallocate_freeList[OF assms]
  from assms have F: "freeList bm (owned cfg h dsk) = Inr bm'"
    by (simp add: D[of bm])
  from freeList_Inr[OF F]
  have 1: "\<forall>s\<in>set (owned cfg h dsk). Test bm s \<and> \<not> Test bm' s"
    and 2: "NumClear bm' = NumClear bm + int (length (owned cfg h dsk))"
    by simp_all
  have 3: "Deallocate cfg h bm' dsk = Inl AssertionFailed"
    if "0 < NumSecond cfg \<and> 1 \<le> numSectors h"
  proof -
    from that have "owned cfg h dsk \<noteq> []" by (simp add: owned_nonempty)
    from freeList_twice[OF F this] show ?thesis by (simp add: D[of bm'])
  qed
  from D 1 2 3 show ?thesis by blast
qed

lemma Deallocate_7: "Deallocate tinyConfig file7 map7 disk7 = Inr freeMap8"
  by (simp add: eval_defs)

theorem deallocate_asserts_witness:
  "Deallocate tinyConfig file7 map7 disk7 = Inr freeMap8 \<and>
   0 < NumSecond tinyConfig \<and> 1 \<le> numSectors file7 \<and>
   NumClear freeMap8 = NumClear map7 + int (length (owned tinyConfig file7 disk7)) \<and>
   Deallocate tinyConfig file7 freeMap8 disk7 = Inl AssertionFailed"
proof -
  have a: "0 < NumSecond tinyConfig \<and> 1 \<le> numSectors file7"
    by (simp add: tinyConfig_def file7_def)
  from deallocate_asserts[OF Deallocate_7] a Deallocate_7 show ?thesis
    by blast
qed

text \<open>
  Claim C4, as stated, fails for a file without sectors: there is nothing to free, so no
  assertion is evaluated, and the second \<open>Deallocate\<close> completes like the first.
\<close>

theorem deallocate_twice_empty_file:
  "(case Deallocate tinyConfig emptyHeader map3 blankDisk of
      Inl e \<Rightarrow> Inl e
    | Inr bm' \<Rightarrow> Deallocate tinyConfig emptyHeader bm' blankDisk) = Inr map3"
  by (simp add: eval_defs)

section \<open>Migration to the indexed layout\<close>

lemma copySlots_result:
  "0 \<le> i \<Longrightarrow> n \<le> NumFirst cfg \<Longrightarrow> n \<le> NumSecond cfg \<Longrightarrow>
     copySlots cfg i n arr node = Inr (\<lambda>j. if i \<le> j \<and> j < n then Some (arr j) else node j)"
proof (induction cfg i n arr node rule: copySlots.induct)
  case (1 cfg i n arr node)
  show ?case
  proof (cases "i < n")
    case False
    then have "(\<lambda>j. if i \<le> j \<and> j < n then Some (arr j) else node j) = node"
      by (intro ext) auto
    with False show ?thesis by (simp add: copySlots.simps)
  next
    case True
    with "1.prems" have G: "getSlot cfg arr i = Inr (arr i)"
      and S: "setEntry cfg node i (arr i) = Inr (node(i \<mapsto> arr i))"
      by (simp_all add: getSlot_def setEntry_def)
    from "1.prems" have "0 \<le> i + 1" by simp
    from "1.IH"[OF True G S this "1.prems"(2,3)]
    have "copySlots cfg (i + 1) n arr (node(i \<mapsto> arr i))
        = Inr (\<lambda>j. if i + 1 \<le> j \<and> j < n then Some (arr j) else (node(i \<mapsto> arr i)) j)" .
    moreover have "(\<lambda>j. if i + 1 \<le> j \<and> j < n then Some (arr j) else (node(i \<mapsto> arr i)) j)
        = (\<lambda>j. if i \<le> j \<and> j < n then Some (arr j) else node j)"
      using True by (intro ext) auto
    ultimately show ?thesis
      using True G S by (simp add: copySlots.simps[of cfg i n])
  qed
qed

section \<open>Growth and the size limit\<close>

lemma divRoundUp_nonneg: "0 < s \<Longrightarrow> 0 \<le> n \<Longrightarrow> 0 \<le> divRoundUp n s"
  using divRoundUp_le_iff[of s n "- 1"] by simp

lemma migrate_ok:
  assumes "0 < NumFirst cfg" and "old \<le> NumFirst cfg" and "old \<le> NumSecond cfg"
  shows "\<exists>arr bm2 dsk2. migrate cfg h old bm dsk
           = Inr (h\<lparr>dataSectors := arr, useIndex := True\<rparr>, bm2, dsk2)"
proof -
  obtain sec bm1 where F: "Find bm = (sec, bm1)" by (cases "Find bm")
  from assms(1) have S: "setSlot cfg (dataSectors h) 0 sec = Inr ((dataSectors h)(0 := sec))"
    by (simp add: setSlot_def)
  from copySlots_result[OF _ assms(2,3), of 0 "dataSectors h" newNode] F S
  have "\<exists>bm2 dsk2. migrate cfg h old bm dsk
      = Inr (h\<lparr>dataSectors := (dataSectors h)(0 := sec), useIndex := True\<rparr>, bm2, dsk2)"
    by (simp add: migrate_def)
  then show ?thesis by blast
qed

lemma growIndexed_ok:
  assumes ns: "0 < NumSecond cfg" and old: "0 \<le> old" "old \<le> numSectors h"
    and lim: "divRoundUp (numSectors h) (NumSecond cfg) \<le> NumFirst cfg"
  shows "\<exists>h' bm' dsk'. growIndexed cfg h old bm dsk = Inr (True, h', bm', dsk')"
proof -
  define n where "n = numSectors h"
  define N where "N = divRoundUp n (NumSecond cfg)"
  define oldN where "oldN = divRoundUp old (NumSecond cfg)"
  from old have oN: "0 \<le> oldN" "oldN \<le> N"
    by (simp_all add: oldN_def N_def n_def divRoundUp_nonneg[OF ns] divRoundUp_mono[OF ns])
  have "\<exists>st. (if cmod old (NumSecond cfg) \<noteq> 0
                then fillTail cfg old n oldN (dataSectors h, bm, dsk)
                else Inr (dataSectors h, bm, dsk)) = Inr st"
  proof (cases "cmod old (NumSecond cfg) \<noteq> 0")
    case False
    then show ?thesis by simp
  next
    case True
    then have "old \<noteq> 0" by (auto simp: cmod_def cdiv_def)
    with old have "0 < old" by simp
    then have "0 < oldN" by (simp add: oldN_def divRoundUp_pos_iff[OF ns])
    with oN lim have G: "getSlot cfg (dataSectors h) (oldN - 1) = Inr (dataSectors h (oldN - 1))"
      by (simp add: getSlot_def N_def n_def)
    have "0 < old - (oldN - 1) * NumSecond cfg"
      using divRoundUp_bounds(2)[OF ns, of old] by (simp add: oldN_def mult.commute)
    then have "\<exists>r. fillEntries cfg (old - (oldN - 1) * NumSecond cfg)
        (min (NumSecond cfg) (n - (oldN - 1) * NumSecond cfg))
        (dsk (dataSectors h (oldN - 1)), bm) = Inr r"
      by (intro fillEntries_ok) simp
    then obtain r where "fillEntries cfg (old - (oldN - 1) * NumSecond cfg)
        (min (NumSecond cfg) (n - (oldN - 1) * NumSecond cfg))
        (dsk (dataSectors h (oldN - 1)), bm) = Inr r" ..
    with True G show ?thesis
      by (cases r) (simp add: fillTail_def)
  qed
  then obtain st where T: "(if cmod old (NumSecond cfg) \<noteq> 0
                then fillTail cfg old n oldN (dataSectors h, bm, dsk)
                else Inr (dataSectors h, bm, dsk)) = Inr st" ..
  have "n - NumSecond cfg * (N - 1) \<le> NumSecond cfg"
    using entriesOf_le[OF ns, of n "N - 1"] by (simp add: entriesOf_def N_def)
  from allocNodes_ok[OF oN(1) _ this, of st] lim
  obtain r where "allocNodes cfg n N oldN st = Inr r"
    by (auto simp: N_def n_def)
  with T show ?thesis
    by (cases r; cases "cmod old (NumSecond cfg) = 0")
      (simp_all add: growIndexed_def Let_def n_def[symmetric] N_def[symmetric]
        oldN_def[symmetric])
qed

text \<open>Within the size limit every array access of \<open>addLength\<close> is in range.\<close>

lemma addLength_in_range:
  assumes "validConfig cfg"
    and "0 \<le> numBytes h" and "numSectors h = divRoundUp (numBytes h) (SectorSize cfg)"
    and "useIndex h \<longleftrightarrow> NumFirst cfg < numSectors h"
    and "useIndex h \<or> numSectors h \<le> NumSecond cfg"
    and "0 \<le> addBytes"
    and "numBytes h + addBytes \<le> NumFirst cfg * NumSecond cfg * SectorSize cfg"
  shows "\<exists>h' bm' dsk'. addLength cfg h bm dsk addBytes = Inr (True, h', bm', dsk')"
proof -
  from assms(1) have ss: "0 < SectorSize cfg" and ns: "0 < NumSecond cfg" and nf: "0 < NumFirst cfg"
    by (simp_all add: validConfig_def)
  define n where "n = divRoundUp (numBytes h + addBytes) (SectorSize cfg)"
  define h1 where "h1 = h\<lparr>numBytes := numBytes h + addBytes, numSectors := n\<rparr>"
  from assms(2,3) have old0: "0 \<le> numSectors h" by (simp add: divRoundUp_nonneg[OF ss])
  from assms(3,6) have oldn: "numSectors h \<le> n" by (simp add: n_def divRoundUp_mono[OF ss])
  from assms(7) have "n \<le> NumSecond cfg * NumFirst cfg"
    by (simp add: n_def divRoundUp_le_iff[OF ss] mult.commute mult.left_commute)
  then have lim: "divRoundUp n (NumSecond cfg) \<le> NumFirst cfg"
    by (simp add: divRoundUp_le_iff[OF ns])
  have AL: "addLength cfg h bm dsk addBytes =
     (if numSectors h1 - numSectors h = 0 then Inr (True, h1, bm, dsk)
      else if numSectors h1 \<le> NumFirst cfg then
        (case fillSlots cfg (numSectors h) (numSectors h1) (dataSectors h1, bm) of
           Inl e \<Rightarrow> Inl e
         | Inr (arr, bm') \<Rightarrow> Inr (True, h1\<lparr>dataSectors := arr\<rparr>, bm', dsk))
      else
        (case (if numSectors h1 > NumFirst cfg \<and> \<not> useIndex h1
               then migrate cfg h1 (numSectors h) bm dsk
               else Inr (h1, bm, dsk)) of
           Inl e \<Rightarrow> Inl e
         | Inr (h2, bm2, dsk2) \<Rightarrow> growIndexed cfg h2 (numSectors h) bm2 dsk2))"
    unfolding addLength_def Let_def h1_def n_def ..
  have f1: "numSectors h1 = n" "useIndex h1 = useIndex h" "dataSectors h1 = dataSectors h"
    by (simp_all add: h1_def)
  show ?thesis
  proof (cases "n = numSectors h")
    case True
    then show ?thesis by (simp add: AL f1)
  next
    case ne: False
    show ?thesis
    proof (cases "n \<le> NumFirst cfg")
      case True
      with old0 have "numSectors h < n \<longrightarrow> 0 \<le> numSectors h \<and> n \<le> NumFirst cfg" by simp
      from fillSlots_ok[OF this, of "(dataSectors h, bm)"]
      obtain r where "fillSlots cfg (numSectors h) n (dataSectors h, bm) = Inr r" by blast
      with ne True show ?thesis
        by (cases r) (simp add: AL f1)
    next
      case False
      show ?thesis
      proof (cases "useIndex h")
        case True
        from growIndexed_ok[OF ns old0, of h1 bm dsk] oldn lim
        obtain h' bm' dsk'
          where "growIndexed cfg h1 (numSectors h) bm dsk = Inr (True, h', bm', dsk')"
          by (auto simp: f1)
        with ne False True show ?thesis
          by (simp add: AL f1)
      next
        case u: False
        with assms(4,5) have "numSectors h \<le> NumFirst cfg" "numSectors h \<le> NumSecond cfg"
          by simp_all
        from migrate_ok[OF nf this, of h1 bm dsk]
        obtain arr bm2 dsk2 where M: "migrate cfg h1 (numSectors h) bm dsk
           = Inr (h1\<lparr>dataSectors := arr, useIndex := True\<rparr>, bm2, dsk2)"
          by blast
        define h2 where "h2 = h1\<lparr>dataSectors := arr, useIndex := True\<rparr>"
        have n2: "numSectors h2 = n" by (simp add: h2_def f1)
        from growIndexed_ok[OF ns old0, of h2 bm2 dsk2] oldn lim n2
        obtain h' bm' dsk'
          where "growIndexed cfg h2 (numSectors h) bm2 dsk2 = Inr (True, h', bm', dsk')"
          by auto
        with ne False u M show ?thesis
          by (simp add: AL f1 h2_def)
      qed
    qed
  qed
qed

section \<open>What the indexed growth leaves in place\<close>

lemma Find_mono:
  assumes "Find bm = (s, bm')"
  shows "\<not> Test bm s" and "\<forall>t. Test bm t \<longrightarrow> Test bm' t"
proof -
  have "\<not> Test bm s \<and> (\<forall>t. Test bm t \<longrightarrow> Test bm' t)"
  proof (cases "0 < NumClear bm")
    case True
    from Find_some[OF True] assms show ?thesis
      by (auto simp: Test_Mark)
  next
    case False
    then have "Find bm = (NoSector, bm)" by (simp add: Find_none)
    with assms show ?thesis by (auto simp: NoSector_def Test_def)
  qed
  then show "\<not> Test bm s" and "\<forall>t. Test bm t \<longrightarrow> Test bm' t" by simp_all
qed

lemma fillEntries_mono:
  "fillEntries cfg j n st = Inr st' \<Longrightarrow> \<forall>t. Test (snd st) t \<longrightarrow> Test (snd st') t"
proof (induction cfg j n st arbitrary: st' rule: fillEntries.induct)
  case (1 cfg j n node bm)
  show ?case
  proof (cases "j < n")
    case False
    with "1.prems" show ?thesis by (simp add: fillEntries.simps)
  next
    case True
    obtain s bm1 where F: "Find bm = (s, bm1)" by (cases "Find bm")
    from "1.prems" True F obtain node1
      where S: "setEntry cfg node j s = Inr node1"
        and R: "fillEntries cfg (j + 1) n (node1, bm1) = Inr st'"
      by (auto simp: fillEntries.simps[of cfg j n] split: sum.splits)
    from "1.IH"[OF True F[symmetric] S R] Find_mono(2)[OF F] show ?thesis
      by simp
  qed
qed

lemma allocNodes_frame:
  "allocNodes cfg nSectors numNode i st = Inr st' \<Longrightarrow>
     (\<forall>t. Test (fst (snd st)) t \<longrightarrow> Test (fst (snd st')) t) \<and>
     (\<forall>s. Test (fst (snd st)) s \<longrightarrow> snd (snd st') s = snd (snd st) s)"
proof (induction cfg nSectors numNode i st arbitrary: st' rule: allocNodes.induct)
  case (1 cfg nSectors numNode i arr bm dsk)
  show ?case
  proof (cases "i < numNode")
    case False
    with "1.prems" show ?thesis by (simp add: allocNodes.simps)
  next
    case True
    obtain sector bm1 where F: "Find bm = (sector, bm1)" by (cases "Find bm")
    from "1.prems" True F obtain arr1 node bm2
      where S: "setSlot cfg arr i sector = Inr arr1"
        and E: "fillEntries cfg 0 (entriesOf cfg nSectors numNode i) (newNode, bm1) = Inr (node, bm2)"
        and R: "allocNodes cfg nSectors numNode (i + 1) (arr1, bm2, dsk(sector := node)) = Inr st'"
      by (auto simp: allocNodes.simps[of cfg nSectors numNode i] split: sum.splits)
    from "1.IH"[OF True F[symmetric] S E refl R]
    have ih1: "\<forall>t. Test bm2 t \<longrightarrow> Test (fst (snd st')) t"
      and ih2: "\<forall>s. Test bm2 s \<longrightarrow> snd (snd st') s = (dsk(sector := node)) s"
      by simp_all
    from Find_mono[OF F] fillEntries_mono[OF E]
    have m: "\<not> Test bm sector" "\<forall>t. Test bm t \<longrightarrow> Test bm2 t" by simp_all
    have "\<forall>s. Test bm s \<longrightarrow> snd (snd st') s = dsk s"
    proof (intro allI impI)
      fix s assume s: "Test bm s"
      with m have "s \<noteq> sector" "Test bm2 s" by auto
      with ih2 show "snd (snd st') s = dsk s" by simp
    qed
    with ih1 m show ?thesis by simp
  qed
qed

lemma fillTail_frame:
  assumes "fillTail cfg old n oldN (arr, bm, dsk) = Inr (arr', bm', dsk')"
  shows "arr' = arr" and "\<forall>t. Test bm t \<longrightarrow> Test bm' t"
    and "\<forall>s. s \<noteq> arr (oldN - 1) \<longrightarrow> dsk' s = dsk s"
    and "\<forall>j. j < old - (oldN - 1) * NumSecond cfg \<longrightarrow> dsk' (arr (oldN - 1)) j = dsk (arr (oldN - 1)) j"
proof -
  from assms obtain snode
    where E: "fillEntries cfg (old - (oldN - 1) * NumSecond cfg)
          (min (NumSecond cfg) (n - (oldN - 1) * NumSecond cfg)) (dsk (arr (oldN - 1)), bm)
          = Inr (snode, bm')"
      and a: "arr' = arr" and d: "dsk' = dsk(arr (oldN - 1) := snode)"
    by (auto simp: fillTail_def getSlot_def split: sum.splits if_splits)
  from fillEntries_Inr[OF E]
  have "\<forall>k. k < old - (oldN - 1) * NumSecond cfg \<longrightarrow> snode k = dsk (arr (oldN - 1)) k"
    by simp
  with a d fillEntries_mono[OF E]
  show "arr' = arr" and "\<forall>t. Test bm t \<longrightarrow> Test bm' t"
    and "\<forall>s. s \<noteq> arr (oldN - 1) \<longrightarrow> dsk' s = dsk s"
    and "\<forall>j. j < old - (oldN - 1) * NumSecond cfg \<longrightarrow> dsk' (arr (oldN - 1)) j = dsk (arr (oldN - 1)) j"
    by simp_all
qed

text \<open>
  The growth of an indexed file whose sectors so far fit into its first index node: the sector
  in \<open>dataSectors[0]\<close>, if it is marked, still holds the node's old entries afterwards.
\<close>

lemma growIndexed_keeps_first_node:
  assumes G: "growIndexed cfg h old bm dsk = Inr (ok, h', bm', dsk')"
    and ns: "0 < NumSecond cfg" and old: "1 \<le> old" "old \<le> NumSecond cfg"
    and t: "Test bm (dataSectors h 0)"
  shows "dataSectors h' 0 = dataSectors h 0" and "Test bm' (dataSectors h 0)"
    and "\<forall>j. j < old \<longrightarrow> dsk' (dataSectors h 0) j = dsk (dataSectors h 0) j"
proof -
  define n where "n = numSectors h"
  define N where "N = divRoundUp n (NumSecond cfg)"
  have oldN: "divRoundUp old (NumSecond cfg) = 1"
  proof -
    from old have "0 < divRoundUp old (NumSecond cfg)"
      by (simp add: divRoundUp_pos_iff[OF ns])
    moreover from old have "divRoundUp old (NumSecond cfg) \<le> 1"
      by (simp add: divRoundUp_le_iff[OF ns])
    ultimately show ?thesis by simp
  qed
  define tl where "tl = (if cmod old (NumSecond cfg) \<noteq> 0
              then fillTail cfg old n 1 (dataSectors h, bm, dsk)
              else Inr (dataSectors h, bm, dsk))"
  have G': "growIndexed cfg h old bm dsk =
      (case tl of Inl e \<Rightarrow> Inl e
       | Inr st \<Rightarrow>
          (case allocNodes cfg n N 1 st of Inl e \<Rightarrow> Inl e
           | Inr (arr, bm', dsk') \<Rightarrow> Inr (True, h\<lparr>dataSectors := arr\<rparr>, bm', dsk')))"
    unfolding growIndexed_def Let_def oldN n_def N_def tl_def ..
  from G[unfolded G'] obtain st r
    where T': "tl = Inr st" and A': "allocNodes cfg n N 1 st = Inr r"
      and R: "(case r of (arr, bm', dsk') \<Rightarrow> Inr (True, h\<lparr>dataSectors := arr\<rparr>, bm', dsk'))
                = (Inr (ok, h', bm', dsk') :: error + _)"
    by (auto split: sum.splits)
  obtain arr1 bm1 dsk1 where st: "st = (arr1, bm1, dsk1)" by (cases st) auto
  obtain arr2 bm2 dsk2 where r: "r = (arr2, bm2, dsk2)" by (cases r) auto
  from R r have h': "dataSectors h' = arr2" and b2: "bm2 = bm'" "dsk2 = dsk'" by auto
  from T' st have T: "(if cmod old (NumSecond cfg) \<noteq> 0
              then fillTail cfg old n 1 (dataSectors h, bm, dsk)
              else Inr (dataSectors h, bm, dsk)) = Inr (arr1, bm1, dsk1)"
    by (simp add: tl_def)
  from A' st r b2 have A: "allocNodes cfg n N 1 (arr1, bm1, dsk1) = Inr (arr2, bm', dsk')"
    by simp
  have 1: "arr1 = dataSectors h \<and> (\<forall>t. Test bm t \<longrightarrow> Test bm1 t) \<and>
      (\<forall>j. j < old \<longrightarrow> dsk1 (dataSectors h 0) j = dsk (dataSectors h 0) j)"
  proof (cases "cmod old (NumSecond cfg) \<noteq> 0")
    case True
    with T have "fillTail cfg old n 1 (dataSectors h, bm, dsk) = Inr (arr1, bm1, dsk1)" by simp
    from fillTail_frame[OF this] show ?thesis by simp
  next
    case False
    with T show ?thesis by simp
  qed
  from allocNodes_Inr[OF A ns] divRoundUp_bounds(2)[OF ns, of n]
  have 2: "arr2 0 = arr1 0"
    by (simp add: N_def)
  from allocNodes_frame[OF A]
  have 3: "\<forall>t. Test bm1 t \<longrightarrow> Test bm' t" "\<forall>s. Test bm1 s \<longrightarrow> dsk' s = dsk1 s"
    by simp_all
  from 1 t have t1: "Test bm1 (dataSectors h 0)" by simp
  from 1 2 h' show "dataSectors h' 0 = dataSectors h 0" by simp
  from 3 t1 show "Test bm' (dataSectors h 0)" by simp
  from 1 3 t1 show "\<forall>j. j < old \<longrightarrow> dsk' (dataSectors h 0) j = dsk (dataSectors h 0) j"
    by simp
qed

text \<open>
  Claim C3.  When a direct file with \<open>oldNumSectors \<le> NumSecond\<close> sectors grows beyond \<open>NumFirst\<close>
  sectors, \<open>addLength\<close> draws one sector \<open>sec\<close> from the bitmap, writes to it an index node whose
  entries \<open>0 .. oldNumSectors - 1\<close> are the file's direct sectors, stores \<open>sec\<close> in
  \<open>dataSectors[0]\<close>, sets \<open>useIndex\<close>, and from that state goes on as the growth of an indexed
  file does.  If the file had a sector and the bitmap a clear bit, all of this is still in place
  when \<open>addLength\<close> returns: \<open>dataSectors[0]\<close> is \<open>sec\<close>, \<open>sec\<close> is marked, and the node on
  disk at \<open>sec\<close> holds the old direct sectors in its first \<open>oldNumSectors\<close> entries.
\<close>

theorem addLength_migrates:
  assumes "0 < NumFirst cfg" and "\<not> useIndex h"
    and "0 \<le> numSectors h" and "numSectors h \<le> NumFirst cfg" and "numSectors h \<le> NumSecond cfg"
    and "NumFirst cfg < divRoundUp (numBytes h + addBytes) (SectorSize cfg)"
  shows "addLength cfg h bm dsk addBytes =
     growIndexed cfg
       (h\<lparr>numBytes := numBytes h + addBytes,
          numSectors := divRoundUp (numBytes h + addBytes) (SectorSize cfg),
          dataSectors := (dataSectors h)(0 := fst (Find bm)),
          useIndex := True\<rparr>)
       (numSectors h)
       (snd (Find bm))
       (dsk(fst (Find bm) :=
          (\<lambda>j. if 0 \<le> j \<and> j < numSectors h then Some (dataSectors h j) else None))) \<and>
     (1 \<le> numSectors h \<and> 0 < NumClear bm \<and>
      addLength cfg h bm dsk addBytes = Inr (ok, h', bm', dsk') \<longrightarrow>
        useIndex h' \<and> dataSectors h' 0 = fst (Find bm) \<and> Test bm' (fst (Find bm)) \<and>
        (\<forall>j. 0 \<le> j \<and> j < numSectors h \<longrightarrow>
           dsk' (dataSectors h' 0) j = Some (dataSectors h j)))"
proof -
  obtain sec bm1 where F: "Find bm = (sec, bm1)" by (cases "Find bm")
  define hm where "hm = h\<lparr>numBytes := numBytes h + addBytes,
          numSectors := divRoundUp (numBytes h + addBytes) (SectorSize cfg),
          dataSectors := (dataSectors h)(0 := sec), useIndex := True\<rparr>"
  define dm where "dm = dsk(sec :=
          (\<lambda>j. if 0 \<le> j \<and> j < numSectors h then Some (dataSectors h j) else None))"
  have "(\<lambda>j. if 0 \<le> j \<and> j < numSectors h then Some (dataSectors h j) else newNode j)
      = (\<lambda>j. if 0 \<le> j \<and> j < numSectors h then Some (dataSectors h j) else None)"
    unfolding newNode_def ..
  with copySlots_result[OF _ assms(4,5), of 0 "dataSectors h" newNode]
  have C: "copySlots cfg 0 (numSectors h) (dataSectors h) newNode
      = Inr (\<lambda>j. if 0 \<le> j \<and> j < numSectors h then Some (dataSectors h j) else None)"
    by simp
  from assms(1) have S: "setSlot cfg (dataSectors h) 0 sec = Inr ((dataSectors h)(0 := sec))"
    by (simp add: setSlot_def)
  from assms(4,6) have ne: "divRoundUp (numBytes h + addBytes) (SectorSize cfg) \<noteq> numSectors h"
    and big: "\<not> divRoundUp (numBytes h + addBytes) (SectorSize cfg) \<le> NumFirst cfg"
    by simp_all
  have A: "addLength cfg h bm dsk addBytes = growIndexed cfg hm (numSectors h) bm1 dm"
    using assms(2) ne big by (simp add: addLength_def Let_def migrate_def F C S hm_def dm_def)
  have B: "useIndex h' \<and> dataSectors h' 0 = sec \<and> Test bm' sec \<and>
        (\<forall>j. 0 \<le> j \<and> j < numSectors h \<longrightarrow> dsk' (dataSectors h' 0) j = Some (dataSectors h j))"
    if p: "1 \<le> numSectors h \<and> 0 < NumClear bm \<and>
      addLength cfg h bm dsk addBytes = Inr (ok, h', bm', dsk')"
  proof -
    from p A have G: "growIndexed cfg hm (numSectors h) bm1 dm = Inr (ok, h', bm', dsk')" by simp
    from p assms(5) have ns: "0 < NumSecond cfg" by simp
    from p Find_some[of bm] F have "Test bm1 sec" by (auto simp: Test_Mark)
    then have t: "Test bm1 (dataSectors hm 0)" by (simp add: hm_def)
    from p have o: "1 \<le> numSectors h" by simp
    note k = growIndexed_keeps_first_node[OF G ns o assms(5) t]
    from growIndexed_Inr[OF G] have u: "useIndex h'" by (simp add: hm_def)
    from k(1) have s0: "dataSectors h' 0 = sec" by (simp add: hm_def)
    from k(2) have ts: "Test bm' sec" by (simp add: hm_def)
    from k(3) have "\<forall>j. 0 \<le> j \<and> j < numSectors h \<longrightarrow> dsk' sec j = Some (dataSectors h j)"
      by (simp add: hm_def dm_def)
    with u s0 ts show ?thesis by simp
  qed
  have sec: "fst (Find bm) = sec" "snd (Find bm) = bm1" by (simp_all add: F)
  from B have "1 \<le> numSectors h \<and> 0 < NumClear bm \<and>
      addLength cfg h bm dsk addBytes = Inr (ok, h', bm', dsk') \<longrightarrow>
        useIndex h' \<and> dataSectors h' 0 = sec \<and> Test bm' sec \<and>
        (\<forall>j. 0 \<le> j \<and> j < numSectors h \<longrightarrow>
           dsk' (dataSectors h' 0) j = Some (dataSectors h j))"
    by blast
  with A show ?thesis
    unfolding sec hm_def dm_def by blast
qed

theorem addLength_migrates_witness:
  "0 < NumFirst tinyConfig \<and> \<not> useIndex file3 \<and> 0 \<le> numSectors file3 \<and>
   numSectors file3 \<le> NumFirst tinyConfig \<and> numSectors file3 \<le> NumSecond tinyConfig \<and>
   NumFirst tinyConfig < divRoundUp (numBytes file3 + 4) (SectorSize tinyConfig) \<and>
   1 \<le> numSectors file3 \<and> 0 < NumClear map3 \<and>
   addLength tinyConfig file3 map3 blankDisk 4 = Inr (True, file3grown, map7, disk3grown) \<and>
   useIndex file3grown \<and> dataSectors file3grown 0 = fst (Find map3) \<and>
   Test map7 (fst (Find map3)) \<and>
   (0::int) \<le> 1 \<and> 1 < numSectors file3 \<and>
   disk3grown (dataSectors file3grown 0) 1 = Some (dataSectors file3 1)"
proof -
  have a: "0 < NumFirst tinyConfig" "\<not> useIndex file3" "0 \<le> numSectors file3"
    "numSectors file3 \<le> NumFirst tinyConfig" "numSectors file3 \<le> NumSecond tinyConfig"
    "NumFirst tinyConfig < divRoundUp (numBytes file3 + 4) (SectorSize tinyConfig)"
    by (simp_all add: tinyConfig_def file3_def divRoundUp_def)
  have b: "1 \<le> numSectors file3" "0 < NumClear map3" "(0::int) \<le> 1" "1 < numSectors file3"
    by (simp_all add: file3_def map3_def NumClear_def)
  from addLength_migrates[OF a, of map3 blankDisk True file3grown map7 disk3grown] b addLength_3_4
  have c: "useIndex file3grown" "dataSectors file3grown 0 = fst (Find map3)"
    "Test map7 (fst (Find map3))"
    "\<forall>j. 0 \<le> j \<and> j < numSectors file3 \<longrightarrow>
       disk3grown (dataSectors file3grown 0) j = Some (dataSectors file3 j)"
    by blast+
  from c(4) b have d: "disk3grown (dataSectors file3grown 0) 1 = Some (dataSectors file3 1)"
    by blast
  from a b addLength_3_4 c(1,2,3) d show ?thesis by blast
qed

text \<open>
  An empty file that grows beyond \<open>NumFirst\<close> sectors in one step goes through the same
  migration, with nothing to copy.  The old number of index nodes is 0, so the loop over the new
  nodes starts at position 0: here the migration draws sector 0 and writes an empty node to it,
  and the loop then stores sector 1 in \<open>dataSectors[0]\<close>.  Sector 0 stays marked.
\<close>

lemma addLength_from_empty_file:
  "addLength tinyConfig emptyHeader freeMap8 blankDisk 6
     = Inr (True,
            \<lparr>numBytes = 6, numSectors = 3, useIndex = True, dataSectors = (\<lambda>i. 0)(0 := 1, 1 := 4)\<rparr>,
            map7,
            blankDisk(0 := newNode, 1 := newNode(0 \<mapsto> 2, 1 \<mapsto> 3), 4 := newNode(0 \<mapsto> 5)))"
  by (simp add: eval_defs)

section \<open>The sectors a growth draws\<close>

lemma length_ownedNodes:
  assumes ns: "0 < NumSecond cfg" and tl: "NumSecond cfg * (numNode - 1) \<le> nSectors"
  shows "int (length (ownedNodes cfg nSectors numNode arr dsk i))
     = (if i < numNode then nSectors - i * NumSecond cfg + numNode - i else 0)"
proof (induction "nat (numNode - i)" arbitrary: i)
  case 0
  then have "\<not> i < numNode" by simp
  then show ?case by (simp add: ownedNodes_empty)
next
  case (Suc m)
  then have lt: "i < numNode" and m: "m = nat (numNode - (i + 1))" by simp_all
  have c0: "0 \<le> entriesOf cfg nSectors numNode i"
    by (rule entriesOf_nonneg[OF ns tl])
  then have l: "int (length (ownedNode cfg nSectors numNode arr dsk i))
      = 1 + entriesOf cfg nSectors numNode i"
    by (simp add: ownedNode_def)
  from Suc.hyps(1)[OF m]
  have ih: "int (length (ownedNodes cfg nSectors numNode arr dsk (i + 1)))
     = (if i + 1 < numNode then nSectors - (i + 1) * NumSecond cfg + numNode - (i + 1) else 0)" .
  have "int (length (ownedNodes cfg nSectors numNode arr dsk i))
      = 1 + entriesOf cfg nSectors numNode i
        + (if i + 1 < numNode then nSectors - (i + 1) * NumSecond cfg + numNode - (i + 1) else 0)"
    unfolding ownedNodes_rec[OF lt] using l ih by simp
  also have "\<dots> = nSectors - i * NumSecond cfg + numNode - i"
    by (rule entriesOf_step[OF lt])
  finally show ?case using lt by simp
qed

lemma allocNodes_count:
  assumes A: "allocNodes cfg nSectors numNode i (arr, bm, dsk) = Inr (arr', bm', dsk')"
    and ns: "0 < NumSecond cfg" and tl: "NumSecond cfg * (numNode - 1) \<le> nSectors"
    and enough: "i < numNode \<longrightarrow> nSectors - i * NumSecond cfg + numNode - i \<le> NumClear bm"
  shows "NumClear bm' = NumClear bm
           - (if i < numNode then nSectors - i * NumSecond cfg + numNode - i else 0)"
proof -
  from allocNodes_Inr[OF A ns tl] enough
  have "drawn bm bm' (ownedNodes cfg nSectors numNode arr' dsk' i)" by simp
  then have "NumClear bm' = NumClear bm
      - int (length (ownedNodes cfg nSectors numNode arr' dsk' i))"
    by (simp add: drawn_def)
  then show ?thesis
    by (simp only: length_ownedNodes[OF ns tl])
qed

lemma fillSlots_count:
  assumes F: "fillSlots cfg i n (arr, bm) = Inr (arr', bm')"
    and le: "i \<le> n" and enough: "n - i \<le> NumClear bm"
  shows "NumClear bm' = NumClear bm - (n - i)" and "\<forall>t. Test bm t \<longrightarrow> Test bm' t"
proof -
  from fillSlots_Inr[OF F] enough have d: "drawn bm bm' (map arr' [i..n - 1])" by simp
  with le show "NumClear bm' = NumClear bm - (n - i)" by (simp add: drawn_def)
  from d show "\<forall>t. Test bm t \<longrightarrow> Test bm' t" by (simp add: drawn_def)
qed

lemma fillEntries_count:
  assumes F: "fillEntries cfg j n (node, bm) = Inr (node', bm')"
    and le: "j \<le> n" and enough: "n - j \<le> NumClear bm"
  shows "NumClear bm' = NumClear bm - (n - j)"
proof -
  from fillEntries_Inr[OF F] enough
  have "drawn bm bm' (map (\<lambda>k. the (node' k)) [j..n - 1])" by simp
  with le show ?thesis by (simp add: drawn_def)
qed

lemma divRoundUp_exact:
  assumes "n mod s = 0"
  shows "s * divRoundUp n s = n"
proof -
  from assms have "s dvd - n" by (simp add: mod_eq_0_iff_dvd)
  then have "(- n) div s * s = - n" by (rule dvd_div_mult_self)
  then show ?thesis by (simp add: divRoundUp_def mult.commute)
qed

lemma growIndexed_count:
  assumes G: "growIndexed cfg h old bm dsk = Inr (ok, h', bm', dsk')"
    and ns: "0 < NumSecond cfg" and old: "0 \<le> old" "old \<le> numSectors h"
    and enough: "numSectors h - old
        + (divRoundUp (numSectors h) (NumSecond cfg) - divRoundUp old (NumSecond cfg))
        \<le> NumClear bm"
  shows "NumClear bm' = NumClear bm
      - (numSectors h - old
         + (divRoundUp (numSectors h) (NumSecond cfg) - divRoundUp old (NumSecond cfg)))"
    and "\<forall>t. Test bm t \<longrightarrow> Test bm' t"
proof -
  define n where "n = numSectors h"
  define N where "N = divRoundUp n (NumSecond cfg)"
  define oldN where "oldN = divRoundUp old (NumSecond cfg)"
  define P where "P = NumSecond cfg * oldN"
  define Q where "Q = NumSecond cfg * N"
  define S where "S = NumSecond cfg"
  have S0: "0 < S" using ns by (simp add: S_def)
  have e1: "(oldN - 1) * NumSecond cfg = P - S" "oldN * NumSecond cfg = P"
    "NumSecond cfg * (N - 1) = Q - S"
    by (simp_all add: P_def Q_def S_def algebra_simps)
  from divRoundUp_bounds[OF ns, of old]
  have f1: "old \<le> P" "P - S < old"
    by (simp_all add: P_def S_def oldN_def algebra_simps)
  from divRoundUp_bounds[OF ns, of n]
  have f2: "n \<le> Q" "Q - S < n"
    by (simp_all add: Q_def S_def N_def algebra_simps)
  from old have oN: "oldN \<le> N"
    by (simp add: oldN_def N_def n_def divRoundUp_mono[OF ns])
  have f3: "P + S \<le> Q" if "oldN < N"
  proof -
    from that have "oldN + 1 \<le> N" by simp
    with ns have "NumSecond cfg * (oldN + 1) \<le> NumSecond cfg * N"
      by (intro mult_left_mono) simp_all
    then show ?thesis by (simp add: P_def Q_def S_def algebra_simps)
  qed
  have f4: "P = Q" if "\<not> oldN < N"
    using that oN by (simp add: P_def Q_def)
  from enough have en: "n - old + (N - oldN) \<le> NumClear bm"
    by (simp add: n_def N_def oldN_def)
  define tl where "tl = (if cmod old (NumSecond cfg) \<noteq> 0
              then fillTail cfg old n oldN (dataSectors h, bm, dsk)
              else Inr (dataSectors h, bm, dsk))"
  have G': "growIndexed cfg h old bm dsk =
      (case tl of Inl e \<Rightarrow> Inl e
       | Inr st \<Rightarrow>
          (case allocNodes cfg n N oldN st of Inl e \<Rightarrow> Inl e
           | Inr (arr, bm', dsk') \<Rightarrow> Inr (True, h\<lparr>dataSectors := arr\<rparr>, bm', dsk')))"
    unfolding growIndexed_def Let_def oldN_def n_def N_def tl_def ..
  from G[unfolded G'] obtain st r
    where T': "tl = Inr st" and A': "allocNodes cfg n N oldN st = Inr r"
      and R: "(case r of (arr, bm', dsk') \<Rightarrow> Inr (True, h\<lparr>dataSectors := arr\<rparr>, bm', dsk'))
                = (Inr (ok, h', bm', dsk') :: error + _)"
    by (auto split: sum.splits)
  obtain arr1 bm1 dsk1 where st: "st = (arr1, bm1, dsk1)" by (cases st) auto
  obtain arr2 bm2 dsk2 where r: "r = (arr2, bm2, dsk2)" by (cases r) auto
  from R r have b2: "bm2 = bm'" "dsk2 = dsk'" by auto
  from A' st r b2 have A: "allocNodes cfg n N oldN (arr1, bm1, dsk1) = Inr (arr2, bm', dsk')"
    by simp
  have tail: "(\<forall>t. Test bm t \<longrightarrow> Test bm1 t) \<and>
      NumClear bm1 = NumClear bm - (if oldN < N then P - old else n - old)"
  proof (cases "cmod old (NumSecond cfg) \<noteq> 0")
    case True
    with T' st have "fillTail cfg old n oldN (dataSectors h, bm, dsk) = Inr (arr1, bm1, dsk1)"
      by (simp add: tl_def)
    then obtain snode
      where E0: "fillEntries cfg (old - (oldN - 1) * NumSecond cfg)
            (min (NumSecond cfg) (n - (oldN - 1) * NumSecond cfg))
            (dsk (dataSectors h (oldN - 1)), bm) = Inr (snode, bm1)"
      by (auto simp: fillTail_def getSlot_def split: sum.splits if_splits)
    have E: "fillEntries cfg (old - (P - S)) (min S (n - (P - S)))
            (dsk (dataSectors h (oldN - 1)), bm) = Inr (snode, bm1)"
      using E0 unfolding e1 S_def .
    have b: "min S (n - (P - S)) = (if oldN < N then S else n - (P - S))"
    proof (cases "oldN < N")
      case True
      from f3[OF True] f2 show ?thesis using True by simp
    next
      case False
      from f4[OF False] f2 show ?thesis using False by simp
    qed
    have le: "old - (P - S) \<le> min S (n - (P - S))"
      using f1 old by (simp add: n_def)
    have "min S (n - (P - S)) - (old - (P - S)) \<le> NumClear bm"
      using en oN f1 old by (simp add: n_def)
    from fillEntries_count[OF E le this] fillEntries_mono[OF E] b show ?thesis
      by (simp split: if_splits)
  next
    case False
    with old ns have "old mod NumSecond cfg = 0" by (simp add: cmod_nonneg)
    from divRoundUp_exact[OF this] have "P = old" by (simp add: P_def oldN_def)
    moreover from False T' st have "bm1 = bm" by (simp add: tl_def)
    moreover have "n = old" if "\<not> oldN < N"
      using f4[OF that] f2 old \<open>P = old\<close> by (simp add: n_def)
    ultimately show ?thesis by simp
  qed
  have tl2: "NumSecond cfg * (N - 1) \<le> n"
    using f2 by (simp add: e1)
  have need: "oldN < N \<longrightarrow> n - oldN * NumSecond cfg + N - oldN \<le> NumClear bm1"
    using tail en by (simp add: e1)
  from allocNodes_count[OF A ns tl2 need]
  have c: "NumClear bm' = NumClear bm1 - (if oldN < N then n - P + N - oldN else 0)"
    by (simp add: e1)
  from tail c oN have "NumClear bm' = NumClear bm - (n - old + (N - oldN))"
    by (simp split: if_splits)
  then show "NumClear bm' = NumClear bm
      - (numSectors h - old
         + (divRoundUp (numSectors h) (NumSecond cfg) - divRoundUp old (NumSecond cfg)))"
    by (simp add: n_def N_def oldN_def)
  from allocNodes_frame[OF A] tail show "\<forall>t. Test bm t \<longrightarrow> Test bm' t"
    by simp
qed

lemma migrate_bitmap:
  "migrate cfg h old bm dsk = Inr (h2, bm2, dsk2) \<Longrightarrow> bm2 = snd (Find bm)"
  by (auto simp: migrate_def split: prod.splits sum.splits)

lemma addLength_count:
  assumes A: "addLength cfg h bm dsk addBytes = Inr (ok, h', bm', dsk')"
    and ns: "0 < NumSecond cfg"
    and inv: "0 \<le> numSectors h" "useIndex h \<longleftrightarrow> NumFirst cfg < numSectors h"
    and grow: "numSectors h \<le> divRoundUp (numBytes h + addBytes) (SectorSize cfg)"
    and enough: "growthNeeded cfg h addBytes \<le> NumClear bm"
  shows "NumClear bm' = NumClear bm - growthNeeded cfg h addBytes"
    and "\<forall>t. Test bm t \<longrightarrow> Test bm' t"
proof -
  define n where "n = divRoundUp (numBytes h + addBytes) (SectorSize cfg)"
  define h1 where "h1 = h\<lparr>numBytes := numBytes h + addBytes, numSectors := n\<rparr>"
  define N where "N = divRoundUp n (NumSecond cfg)"
  define oldN where "oldN = divRoundUp (numSectors h) (NumSecond cfg)"
  have AL: "addLength cfg h bm dsk addBytes =
     (if numSectors h1 - numSectors h = 0 then Inr (True, h1, bm, dsk)
      else if numSectors h1 \<le> NumFirst cfg then
        (case fillSlots cfg (numSectors h) (numSectors h1) (dataSectors h1, bm) of
           Inl e \<Rightarrow> Inl e
         | Inr (arr, bm') \<Rightarrow> Inr (True, h1\<lparr>dataSectors := arr\<rparr>, bm', dsk))
      else
        (case (if numSectors h1 > NumFirst cfg \<and> \<not> useIndex h1
               then migrate cfg h1 (numSectors h) bm dsk
               else Inr (h1, bm, dsk)) of
           Inl e \<Rightarrow> Inl e
         | Inr (h2, bm2, dsk2) \<Rightarrow> growIndexed cfg h2 (numSectors h) bm2 dsk2))"
    unfolding addLength_def Let_def h1_def n_def ..
  have f1: "numSectors h1 = n" "useIndex h1 = useIndex h" "dataSectors h1 = dataSectors h"
    by (simp_all add: h1_def)
  have need: "growthNeeded cfg h addBytes =
      (if n \<le> NumFirst cfg then n - numSectors h
       else n - numSectors h + (N - oldN) + (if useIndex h then 0 else 1))"
    by (simp add: growthNeeded_def Let_def n_def N_def oldN_def)
  from grow have on: "numSectors h \<le> n" by (simp add: n_def)
  from on inv(1) have oN: "oldN \<le> N"
    by (simp add: oldN_def N_def divRoundUp_mono[OF ns])
  have "NumClear bm' = NumClear bm - growthNeeded cfg h addBytes \<and> (\<forall>t. Test bm t \<longrightarrow> Test bm' t)"
  proof (cases "n = numSectors h")
    case True
    with A have "bm' = bm" by (simp add: AL f1)
    moreover from True inv(2) have "growthNeeded cfg h addBytes = 0"
      by (auto simp: need oldN_def N_def)
    ultimately show ?thesis by simp
  next
    case ne: False
    show ?thesis
    proof (cases "n \<le> NumFirst cfg")
      case True
      with A ne obtain arr
        where F: "fillSlots cfg (numSectors h) n (dataSectors h, bm) = Inr (arr, bm')"
        by (auto simp: AL f1 split: sum.splits)
      from enough True have "n - numSectors h \<le> NumClear bm" by (simp add: need)
      from fillSlots_count[OF F on this] True show ?thesis by (simp add: need)
    next
      case big: False
      show ?thesis
      proof (cases "useIndex h")
        case True
        with A ne big have G: "growIndexed cfg h1 (numSectors h) bm dsk = Inr (ok, h', bm', dsk')"
          by (simp add: AL f1)
        from enough big True have "numSectors h1 - numSectors h
            + (divRoundUp (numSectors h1) (NumSecond cfg) - divRoundUp (numSectors h) (NumSecond cfg))
            \<le> NumClear bm"
          by (simp add: need f1 N_def oldN_def)
        from growIndexed_count[OF G ns inv(1) _ this] on big True show ?thesis
          by (simp add: need f1 N_def oldN_def)
      next
        case u: False
        with A ne big obtain h2 bm2 dsk2
          where M: "migrate cfg h1 (numSectors h) bm dsk = Inr (h2, bm2, dsk2)"
            and G: "growIndexed cfg h2 (numSectors h) bm2 dsk2 = Inr (ok, h', bm', dsk')"
          by (auto simp: AL f1 split: sum.splits)
        from migrate_Inr[OF M] have n2: "numSectors h2 = n" by (simp add: f1)
        from migrate_bitmap[OF M] have b2: "Find bm = (fst (Find bm), bm2)" by simp
        from enough big u on oN have pos: "0 < NumClear bm" by (simp add: need)
        from drawn_Find[OF pos b2] have c2: "NumClear bm2 = NumClear bm - 1"
          by (simp add: drawn_def)
        from enough big u c2 have "numSectors h2 - numSectors h
            + (divRoundUp (numSectors h2) (NumSecond cfg) - divRoundUp (numSectors h) (NumSecond cfg))
            \<le> NumClear bm2"
          by (simp add: need n2 N_def oldN_def)
        from growIndexed_count[OF G ns inv(1) _ this] on n2
        have "NumClear bm' = NumClear bm2 - (n - numSectors h + (N - oldN))"
          and "\<forall>t. Test bm2 t \<longrightarrow> Test bm' t"
          by (simp_all add: N_def oldN_def)
        with c2 Find_mono(2)[OF b2] big u show ?thesis
          by (simp add: need)
      qed
    qed
  qed
  then show "NumClear bm' = NumClear bm - growthNeeded cfg h addBytes"
    and "\<forall>t. Test bm t \<longrightarrow> Test bm' t"
    by simp_all
qed

text \<open>
  Claim C7, as amended.  \<open>addLength\<close> has no check of the size limit and rejects nothing.  For a
  header that satisfies the invariants, a growth whose new size is at most
  \<open>NumFirst * NumSecond * SectorSize\<close> (at most \<open>NumFirst\<close> index nodes), and a bitmap with as many
  clear bits as the growth draws sectors, every access to \<open>dataSectors\<close> and to an index node is
  in range and \<open>addLength\<close> returns \<open>true\<close>; the header it returns has the new size, the sector
  count of that size and the layout flag of that sector count; exactly the sectors the growth
  needs have been drawn, and no bit that was marked has been cleared.  A direct header has to
  fit into one index node for that (\<open>numSectors \<le> NumSecond\<close>).
\<close>

theorem growth_within_limit:
  assumes "validConfig cfg"
    and "0 \<le> numBytes h" and "numSectors h = divRoundUp (numBytes h) (SectorSize cfg)"
    and "useIndex h \<longleftrightarrow> NumFirst cfg < numSectors h"
    and "useIndex h \<or> numSectors h \<le> NumSecond cfg"
    and "0 \<le> addBytes"
    and "numBytes h + addBytes \<le> NumFirst cfg * NumSecond cfg * SectorSize cfg"
    and "growthNeeded cfg h addBytes \<le> NumClear bm"
  shows "\<exists>h' bm' dsk'.
     addLength cfg h bm dsk addBytes = Inr (True, h', bm', dsk') \<and>
     numBytes h' = numBytes h + addBytes \<and>
     numSectors h' = divRoundUp (numBytes h') (SectorSize cfg) \<and>
     (useIndex h' \<longleftrightarrow> NumFirst cfg < numSectors h') \<and>
     divRoundUp (numSectors h') (NumSecond cfg) \<le> NumFirst cfg \<and>
     NumClear bm' = NumClear bm - growthNeeded cfg h addBytes \<and>
     (\<forall>t. Test bm t \<longrightarrow> Test bm' t)"
proof -
  from assms(1) have ss: "0 < SectorSize cfg" and ns: "0 < NumSecond cfg"
    by (simp_all add: validConfig_def)
  from addLength_in_range[OF assms(1-7), of bm dsk]
  obtain h' bm' dsk' where A: "addLength cfg h bm dsk addBytes = Inr (True, h', bm', dsk')"
    by blast
  note f = addLength_fields[OF A]
  from assms(2,3) have old0: "0 \<le> numSectors h" by (simp add: divRoundUp_nonneg[OF ss])
  from assms(3,6) have grow: "numSectors h \<le> divRoundUp (numBytes h + addBytes) (SectorSize cfg)"
    by (simp add: divRoundUp_mono[OF ss])
  from f(2,3) have 1: "numSectors h' = divRoundUp (numBytes h') (SectorSize cfg)" by simp
  from grow f(3,4) assms(4) have 2: "useIndex h' \<longleftrightarrow> NumFirst cfg < numSectors h'"
    by (auto split: if_splits)
  from assms(7) have "numSectors h' \<le> NumSecond cfg * NumFirst cfg"
    by (simp add: f(3) divRoundUp_le_iff[OF ss] mult.commute mult.left_commute)
  then have 3: "divRoundUp (numSectors h') (NumSecond cfg) \<le> NumFirst cfg"
    by (simp add: divRoundUp_le_iff[OF ns])
  note c = addLength_count[OF A ns old0 assms(4) grow assms(8)]
  from A f(2) 1 2 3 c show ?thesis by blast
qed

theorem growth_within_limit_witness:
  "validConfig tinyConfig \<and> 0 \<le> numBytes file3 \<and>
   numSectors file3 = divRoundUp (numBytes file3) (SectorSize tinyConfig) \<and>
   (useIndex file3 \<longleftrightarrow> NumFirst tinyConfig < numSectors file3) \<and>
   numSectors file3 \<le> NumSecond tinyConfig \<and> (0::int) \<le> 4 \<and>
   numBytes file3 + 4 \<le> NumFirst tinyConfig * NumSecond tinyConfig * SectorSize tinyConfig \<and>
   growthNeeded tinyConfig file3 4 = 4 \<and> growthNeeded tinyConfig file3 4 \<le> NumClear map3 \<and>
   addLength tinyConfig file3 map3 blankDisk 4 = Inr (True, file3grown, map7, disk3grown) \<and>
   numBytes file3grown = numBytes file3 + 4 \<and>
   numSectors file3grown = divRoundUp (numBytes file3grown) (SectorSize tinyConfig) \<and>
   (useIndex file3grown \<longleftrightarrow> NumFirst tinyConfig < numSectors file3grown) \<and>
   divRoundUp (numSectors file3grown) (NumSecond tinyConfig) \<le> NumFirst tinyConfig \<and>
   NumClear map7 = NumClear map3 - growthNeeded tinyConfig file3 4"
proof -
  have a: "0 \<le> numBytes file3"
    "numSectors file3 = divRoundUp (numBytes file3) (SectorSize tinyConfig)"
    "useIndex file3 \<longleftrightarrow> NumFirst tinyConfig < numSectors file3"
    by (simp_all add: file3_def tinyConfig_def divRoundUp_def)
  have b: "numSectors file3 \<le> NumSecond tinyConfig"
    by (simp add: file3_def tinyConfig_def)
  have c: "(0::int) \<le> 4"
    "numBytes file3 + 4 \<le> NumFirst tinyConfig * NumSecond tinyConfig * SectorSize tinyConfig"
    by (simp_all add: file3_def tinyConfig_def)
  have g: "growthNeeded tinyConfig file3 4 = 4"
    by (simp add: growthNeeded_def file3_def tinyConfig_def divRoundUp_def)
  have d: "growthNeeded tinyConfig file3 4 \<le> NumClear map3"
    by (simp add: g map3_def NumClear_def)
  from b have b': "useIndex file3 \<or> numSectors file3 \<le> NumSecond tinyConfig" by simp
  from growth_within_limit[OF validConfig_tiny a b' c d, of blankDisk]
  have "numBytes file3grown = numBytes file3 + 4 \<and>
   numSectors file3grown = divRoundUp (numBytes file3grown) (SectorSize tinyConfig) \<and>
   (useIndex file3grown \<longleftrightarrow> NumFirst tinyConfig < numSectors file3grown) \<and>
   divRoundUp (numSectors file3grown) (NumSecond tinyConfig) \<le> NumFirst tinyConfig \<and>
   NumClear map7 = NumClear map3 - growthNeeded tinyConfig file3 4"
    by (auto simp: addLength_3_4)
  with validConfig_tiny a b c g d addLength_3_4 show ?thesis by blast
qed

text \<open>
  Claim C7, as stated, fails: a growth that needs more than \<open>NumFirst\<close> index nodes is not
  rejected.  An empty file under \<open>tinyConfig\<close> grows by 10 bytes, that is to 5 sectors and 3
  index nodes, where the header has 2 slots.  The source first draws a sector and writes an
  index node to it (the migration), then fills node after node; at the third node it stores the
  node's sector in \<open>dataSectors[2]\<close>, outside the array.  \<open>OutOfBounds\<close> is the model's name for
  that store; it is not a rejection.
\<close>

theorem growth_beyond_limit:
  "NumFirst tinyConfig < divRoundUp (divRoundUp 10 (SectorSize tinyConfig)) (NumSecond tinyConfig) \<and>
   migrate tinyConfig (emptyHeader\<lparr>numBytes := 10, numSectors := 5\<rparr>) 0 freeMap8 blankDisk
     = Inr (emptyHeader\<lparr>numBytes := 10, numSectors := 5, dataSectors := (\<lambda>i. 0)(0 := 0),
                        useIndex := True\<rparr>,
            map2, blankDisk(0 := newNode)) \<and>
   addLength tinyConfig emptyHeader freeMap8 blankDisk 10 = Inl OutOfBounds"
  by (simp add: eval_defs)

end
